theory Spec2Isabelle
  imports Complex_Main "HOL-Library.Word"
begin

unbundle bit_operations_syntax

section \<open>Strings\<close>

text \<open>
  A JavaScript string is modelled as a \<open>string\<close> whose characters are the code units
  below 256. On that range \<open>\s\<close> matches the code units 9 to 13, 32 and 160,
  \<open>/[a-z]/i\<close> matches the ASCII letters only, and \<open>toLowerCase\<close> moves the ASCII
  capitals and the Latin-1 capitals (192 to 222 except 215) up by 32.
\<close>

definition isSpace :: "char \<Rightarrow> bool" where
  "isSpace c = (let n = (of_char c :: nat) in (9 \<le> n \<and> n \<le> 13) \<or> n = 32 \<or> n = 160)"

definition isAsciiLetter :: "char \<Rightarrow> bool" where
  "isAsciiLetter c = (let n = (of_char c :: nat) in (65 \<le> n \<and> n \<le> 90) \<or> (97 \<le> n \<and> n \<le> 122))"

definition lowerChar :: "char \<Rightarrow> char" where
  "lowerChar c = (let n = (of_char c :: nat) in
     if (65 \<le> n \<and> n \<le> 90) \<or> (192 \<le> n \<and> n \<le> 222 \<and> n \<noteq> 215)
     then char_of (n + 32) else c)"

definition toLowerCase :: "string \<Rightarrow> string" where
  "toLowerCase s = map lowerChar s"

definition startsWith :: "string \<Rightarrow> string \<Rightarrow> bool" where
  "startsWith s p = (take (length p) s = p)"

text \<open>\<open>t.includes(kw)\<close>: \<open>kw\<close> occurs in \<open>t\<close> as a contiguous substring.\<close>

fun includes_str :: "string \<Rightarrow> string \<Rightarrow> bool" where
  "includes_str [] kw = (kw = [])"
| "includes_str (c # cs) kw = (startsWith (c # cs) kw \<or> includes_str cs kw)"

text \<open>\<open>s.split(sep)\<close> for a separator that is one character: the pieces between the
  separators, empty pieces kept, at least one piece.\<close>

fun splitWhen :: "(char \<Rightarrow> bool) \<Rightarrow> string \<Rightarrow> string list" where
  "splitWhen p [] = [[]]"
| "splitWhen p (c # cs) =
     (let r = splitWhen p cs in if p c then [] # r else (c # hd r) # tl r)"

definition splitOn :: "char \<Rightarrow> string \<Rightarrow> string list" where
  "splitOn sep s = splitWhen (\<lambda>c. c = sep) s"

text \<open>\<open>s.split(/\s+/).filter(Boolean)\<close>. Splitting at runs of white space differs from
  splitting at every white-space character only in empty pieces, and \<open>filter(Boolean)\<close>
  drops every empty piece.\<close>

definition splitSpaces :: "string \<Rightarrow> string list" where
  "splitSpaces s = filter (\<lambda>w. w \<noteq> []) (splitWhen isSpace s)"

text \<open>\<open>xs.join(sep)\<close>.\<close>

fun join :: "string \<Rightarrow> string list \<Rightarrow> string" where
  "join sep [] = []"
| "join sep [x] = x"
| "join sep (x # y # ys) = x @ sep @ join sep (y # ys)"

section \<open>Seeded generator\<close>

text \<open>
  The closure variable \<open>t\<close> of \<open>mulberry32\<close> is a JavaScript number that starts at
  \<open>seed >>> 0\<close> and grows by \<open>0x6D2B79F5\<close> at every draw without being truncated; it
  is an integer here. Every use of \<open>t\<close> goes through a 32-bit operator
  (\<open>^\<close>, \<open>>>>\<close>, \<open>|\<close>, \<open>Math.imul\<close>), which reads it modulo \<open>2^32\<close>. The
  model is exact while \<open>t\<close> stays below \<open>2^53\<close>, where the addition is exact.

  A draw is \<open>n / 4294967296\<close> for a 32-bit \<open>n\<close>; \<open>rand\<close> returns \<open>n\<close>.
\<close>

type_synonym rng = int

definition mulberry32 :: "int \<Rightarrow> rng" where
  "mulberry32 seed = seed mod 4294967296"

definition rand :: "rng \<Rightarrow> 32 word \<times> rng" where
  "rand t =
     (let t' = t + 0x6D2B79F5;
          tw = (word_of_int t' :: 32 word);
          r = (tw XOR drop_bit 15 tw) * (1 OR tw);
          r' = r XOR (r + (r XOR drop_bit 7 r) * (61 OR r))
      in (r' XOR drop_bit 14 r', t'))"

text \<open>\<open>rand() < 0.42\<close> and \<open>rand() < 0.5\<close> on the numerator of the draw. The double
  nearest to 0.42 lies within \<open>2^-54\<close> of it, and \<open>0.42 * 2^32 = 1803886264.32\<close>, so
  the comparison in doubles and the one in rationals agree on every 32-bit numerator.\<close>

definition below042 :: "32 word \<Rightarrow> bool" where
  "below042 r = (100 * uint r < 42 * 4294967296)"

definition belowHalf :: "32 word \<Rightarrow> bool" where
  "belowHalf r = (2 * uint r < 4294967296)"

text \<open>\<open>Math.floor(rand() * n)\<close>: the product is exact in doubles for \<open>n < 2^21\<close>.\<close>

definition randIndex :: "32 word \<Rightarrow> nat \<Rightarrow> nat" where
  "randIndex r n = nat ((uint r * int n) div 4294967296)"

text \<open>\<open>pick(rand, arr, fallback)\<close>: no draw is made for an empty array.\<close>

definition pick :: "rng \<Rightarrow> 'a list \<Rightarrow> 'a \<Rightarrow> 'a \<times> rng" where
  "pick t arr fallback =
     (if arr = [] then (fallback, t)
      else (let (r, t') = rand t in (arr ! randIndex r (length arr), t')))"

section \<open>The linguistic services\<close>

text \<open>
  \<open>RiTa.syllables\<close>, \<open>RiTa.tokenize\<close> and \<open>RiTa.pos\<close> belong to an external library;
  they are parameters of the model. \<open>rita_syllables\<close> returns \<open>None\<close> where the
  library returns something that is not a string.
\<close>

record rita =
  rita_syllables :: "string \<Rightarrow> string option"
  rita_tokenize :: "string \<Rightarrow> string list"
  rita_pos :: "string list \<Rightarrow> string list"

definition syllablesInWord :: "rita \<Rightarrow> string \<Rightarrow> nat" where
  "syllablesInWord R word =
     (if word = [] \<or> \<not> list_ex isAsciiLetter word then 0
      else (case rita_syllables R word of
              None \<Rightarrow> 0
            | Some sylStr \<Rightarrow>
                if sylStr = [] then 0
                else (let n = length (filter (\<lambda>p. p \<noteq> []) (splitOn CHR ''/'' sylStr))
                      in if n > 0 then n else 1)))"

text \<open>The loop of \<open>imageryWords\<close> over the token indices; a missing tag reads as the
  empty string.\<close>

fun keepImagery :: "string list \<Rightarrow> string list \<Rightarrow> string list" where
  "keepImagery [] tags = []"
| "keepImagery (tok # toks) tags =
     (let t = toLowerCase tok;
          tag = toLowerCase (case tags of [] \<Rightarrow> [] | g # _ \<Rightarrow> g)
      in (if (startsWith tag ''nn'' \<or> startsWith tag ''jj'') \<and> t \<noteq> ''other'' \<and> t \<noteq> ''another''
          then [t] else []) @ keepImagery toks (tl tags))"

definition tokenizePOS :: "rita \<Rightarrow> string \<Rightarrow> string list \<times> string list" where
  "tokenizePOS R text = (let tokens = rita_tokenize R text in (tokens, rita_pos R tokens))"

definition imageryWords :: "rita \<Rightarrow> string \<Rightarrow> string list" where
  "imageryWords R text = (let (tokens, pos) = tokenizePOS R text in keepImagery tokens pos)"

section \<open>Topic lock\<close>

datatype TopicKey = Beach | Forest | Mountain | Snow | City | Generic

fun TOPIC_KEYWORDS :: "TopicKey \<Rightarrow> string list" where
  "TOPIC_KEYWORDS Beach = [''beach'', ''ocean'', ''sea'', ''sand'', ''sandy'', ''dune'', ''tide'', ''wave'',
     ''waves'', ''surf'', ''shore'', ''sunblock'', ''sunglasses'', ''volleyball'', ''seagull'', ''pelican'', ''pier'']"
| "TOPIC_KEYWORDS Forest = [''forest'', ''woods'', ''pine'', ''pines'', ''fir'', ''trail'', ''moss'', ''fern'',
     ''ferns'', ''brook'']"
| "TOPIC_KEYWORDS Mountain = [''mountain'', ''peak'', ''peaks'', ''ridge'', ''summit'', ''alpine'', ''scree'', ''cliff'']"
| "TOPIC_KEYWORDS Snow = [''snow'', ''ice'', ''frost'', ''winter'', ''icicle'', ''blizzard'', ''white'', ''hush'']"
| "TOPIC_KEYWORDS City = [''city'', ''street'', ''streets'', ''subway'', ''traffic'', ''neon'', ''pavement'',
     ''market'', ''downtown'', ''skyline'']"
| "TOPIC_KEYWORDS Generic = []"

record fillers =
  f1 :: "string list"
  f2 :: "string list"
  nouns :: "string list"
  banned :: "string list option"
  kigo :: "string list option"

fun TOPIC_FILLERS :: "TopicKey \<Rightarrow> fillers" where
  "TOPIC_FILLERS Beach = \<lparr>
     f1 = [''warm'', ''bright'', ''soft'', ''salt'', ''cool'', ''clear''],
     f2 = [''sunlit'', ''silver'', ''quiet''],
     nouns = [''ocean'', ''sea'', ''shore'', ''sand'', ''dune'', ''dunes'', ''tide'', ''tides'', ''wave'', ''waves'',
       ''foam'', ''surf'', ''shell'', ''shells'', ''seagull'', ''seagulls'', ''sunglasses'', ''sunblock'',
       ''volleyball'', ''umbrella'', ''boardwalk'', ''pier''],
     banned = Some [''snow'', ''ice'', ''winter'', ''icicle'', ''frost'', ''drifts'', ''white'', ''hush''],
     kigo = Some [''hot sand'', ''salt wind'', ''bright noon'', ''summer heat''] \<rparr>"
| "TOPIC_FILLERS Forest = \<lparr>
     f1 = [''green'', ''soft'', ''moss'', ''pine'', ''fern''],
     f2 = [''quiet'', ''shadow''],
     nouns = [''pines'', ''moss'', ''fern'', ''ferns'', ''trail'', ''shade'', ''needles'', ''trunk'', ''leaf'',
       ''leaves'', ''understory'', ''brook''],
     banned = None,
     kigo = Some [''spring rain'', ''green shade''] \<rparr>"
| "TOPIC_FILLERS Mountain = \<lparr>
     f1 = [''thin'', ''high'', ''cold'', ''clear''],
     f2 = [''silent'', ''autumn''],
     nouns = [''ridge'', ''peaks'', ''summit'', ''scree'', ''cliff'', ''crag'', ''alpine''],
     banned = None,
     kigo = Some [''autumn wind'', ''cold moon''] \<rparr>"
| "TOPIC_FILLERS Snow = \<lparr>
     f1 = [''white'', ''cold'', ''still''],
     f2 = [''winter'', ''silent''],
     nouns = [''snow'', ''drifts'', ''ice'', ''icicle'', ''frost'', ''tracks'', ''breath''],
     banned = None,
     kigo = Some [''winter dusk'', ''snow hush'', ''cold moon''] \<rparr>"
| "TOPIC_FILLERS City = \<lparr>
     f1 = [''neon'', ''warm'', ''late''],
     f2 = [''silver'', ''quiet''],
     nouns = [''street'', ''streets'', ''traffic'', ''neon'', ''pavement'', ''window'', ''windows'', ''market'',
       ''skyline''],
     banned = None,
     kigo = Some [''summer heat'', ''night lights''] \<rparr>"
| "TOPIC_FILLERS Generic = \<lparr>
     f1 = [''still'', ''soft'', ''near'', ''calm'', ''slow''],
     f2 = [''quiet'', ''silver'', ''softly''],
     nouns = [''river'', ''stones'', ''reeds'', ''shore'', ''forest'', ''wind'', ''shadow'', ''moon'', ''water''],
     banned = None,
     kigo = None \<rparr>"

text \<open>\<open>Object.keys(TOPIC_KEYWORDS)\<close> and \<open>Object.entries(scores)\<close> list the keys in
  the order of their declaration.\<close>

definition topicKeys :: "TopicKey list" where
  "topicKeys = [Beach, Forest, Mountain, Snow, City, Generic]"

definition keywordScore :: "string list \<Rightarrow> string \<Rightarrow> nat" where
  "keywordScore lower kw =
     (if kw \<in> set lower then 2 else 0) + (if list_ex (\<lambda>t. includes_str t kw) lower then 1 else 0)"

definition topicScore :: "string list \<Rightarrow> TopicKey \<Rightarrow> nat" where
  "topicScore lower k = foldl (\<lambda>s kw. s + keywordScore lower kw) 0 (TOPIC_KEYWORDS k)"

text \<open>\<open>entries.sort((a, b) => b[1] - a[1])\<close>: \<open>Array.prototype.sort\<close> is stable, so
  the result is the stable ordering by descending score, which insertion by the negated
  score computes.\<close>

definition sortByScore :: "(TopicKey \<times> nat) list \<Rightarrow> (TopicKey \<times> nat) list" where
  "sortByScore entries = sort_key (\<lambda>e. - int (snd e)) entries"

definition scoreTopic :: "string list \<Rightarrow> TopicKey" where
  "scoreTopic tokens =
     (let lower = map toLowerCase tokens;
          scores = map (\<lambda>k. (k, topicScore lower k)) topicKeys
      in (case sortByScore scores of
            [] \<Rightarrow> Generic
          | best # _ \<Rightarrow> if snd best > 0 then fst best else Generic))"

section \<open>Natural packers\<close>

definition GLUE_WORDS :: "string list" where
  "GLUE_WORDS = [''the'', ''a'', ''in'', ''on'', ''by'', ''with'', ''of'', ''to'', ''and'', ''at'', ''near'',
     ''under'', ''over'', ''through'', ''into'', ''from'', ''for'', ''as'', ''where'', ''along'', ''over'']"

text \<open>\<open>GLUE_SET\<close>, a set of strings in the source, as the list of its members.\<close>

definition GLUE_SET :: "string list" where
  "GLUE_SET = map toLowerCase GLUE_WORDS"

definition isGlue :: "string \<Rightarrow> bool" where
  "isGlue w = (toLowerCase w \<in> set GLUE_SET)"

text \<open>\<open>Math.ceil(minWords * 0.6)\<close> and \<open>Math.ceil(words.length * 0.5)\<close> on natural
  numbers. The double product \<open>n * 0.6\<close> rounds to the integer \<open>3 n / 5\<close> when \<open>n\<close>
  is a multiple of 5 and stays at least 0.2 away from every integer otherwise, so the
  ceiling taken in doubles is the ceiling of the rational \<open>3 n / 5\<close>.\<close>

definition ceil06 :: "nat \<Rightarrow> nat" where
  "ceil06 n = (3 * n + 4) div 5"

definition ceilHalf :: "nat \<Rightarrow> nat" where
  "ceilHalf n = (n + 1) div 2"

text \<open>\<open>preferGlue\<close>: a draw is made only for a non-empty line.\<close>

definition preferGlue :: "string list \<Rightarrow> rng \<Rightarrow> bool \<times> rng" where
  "preferGlue words t =
     (if words \<noteq> [] then (let (r, t') = rand t in (below042 r, t')) else (False, t))"

text \<open>One pass through the body of the \<open>while\<close> loop of \<open>packNatural\<close>. The first
  component of the result says whether the body left the loop by \<open>break\<close>; the
  \<open>continue\<close> of the source is an ordinary return that changes only the generator.\<close>

definition growStep ::
  "rita \<Rightarrow> string list \<Rightarrow> string list \<Rightarrow> nat \<Rightarrow> string list \<Rightarrow> nat \<Rightarrow> rng
    \<Rightarrow> bool \<times> string list \<times> nat \<times> rng" where
  "growStep R imagerySorted glueSorted target words syl t =
     (let (addGlue, t1) = preferGlue words t;
          source = (if addGlue then glueSorted else imagerySorted)
      in if addGlue \<and> words \<noteq> [] \<and> isGlue (last words) then (False, words, syl, t1)
         else
           (let fits = filter (\<lambda>w. syllablesInWord R w > 0 \<and> syl + syllablesInWord R w \<le> target) source
            in if fits = [] then
                 (let alt = filter (\<lambda>w. syl + syllablesInWord R w \<le> target)
                              (if \<not> addGlue then glueSorted else imagerySorted)
                  in if alt = [] then (True, words, syl, t1)
                     else (let (w, t2) = pick t1 alt (hd alt)
                           in (False, words @ [w], syl + syllablesInWord R w, t2)))
               else
                 (let short = filter (\<lambda>w. syllablesInWord R w = 1) fits;
                      two = filter (\<lambda>w. syllablesInWord R w = 2) fits;
                      pickPool = (if short \<noteq> [] then short else if two \<noteq> [] then two else fits);
                      (w, t2) = pick t1 pickPool (hd pickPool)
                  in (False, words @ [w], syl + syllablesInWord R w, t2))))"

text \<open>\<open>while (syl < target && guard++ < 160)\<close>. The first component of the result is the
  number of times the body ran, which is the value of \<open>guard\<close> the last body saw.\<close>

function growLoop ::
  "rita \<Rightarrow> string list \<Rightarrow> string list \<Rightarrow> nat \<Rightarrow> nat \<Rightarrow> string list \<Rightarrow> nat \<Rightarrow> rng
    \<Rightarrow> nat \<times> string list \<times> nat \<times> rng" where
  "growLoop R imagerySorted glueSorted target guard words syl t =
     (if syl < target \<and> guard < 160 then
        (let (brk, words', syl', t') = growStep R imagerySorted glueSorted target words syl t
         in if brk then (Suc guard, words', syl', t')
            else growLoop R imagerySorted glueSorted target (Suc guard) words' syl' t')
      else (guard, words, syl, t))"
  by pat_completeness auto
termination
  by (relation "measure (\<lambda>(R, imagerySorted, glueSorted, target, guard, words, syl, t). 160 - guard)") auto

text \<open>The \<open>for\<close> loop over the attempts of \<open>packNatural\<close>. The second component of the
  result is the number of attempts made.\<close>

function naturalAttempts ::
  "rita \<Rightarrow> string list \<Rightarrow> string list \<Rightarrow> nat \<Rightarrow> nat \<Rightarrow> nat \<Rightarrow> rng
    \<Rightarrow> string list option \<times> nat \<times> rng" where
  "naturalAttempts R imagerySorted glueSorted target minWords attempt t =
     (if attempt < 36 then
        (let (guard, words, syl, t') = growLoop R imagerySorted glueSorted target 0 [] 0 t
         in if syl \<noteq> target
            then naturalAttempts R imagerySorted glueSorted target minWords (Suc attempt) t'
            else
              (let imageryCount = length (filter (\<lambda>w. \<not> isGlue w) words);
                   glueCount = length words - imageryCount
               in if length words \<ge> minWords \<and> imageryCount \<ge> ceil06 minWords
                     \<and> glueCount \<le> ceilHalf (length words)
                  then (Some words, Suc attempt, t')
                  else naturalAttempts R imagerySorted glueSorted target minWords (Suc attempt) t'))
      else (None, attempt, t))"
  by pat_completeness auto
termination
  by (relation "measure (\<lambda>(R, imagerySorted, glueSorted, target, minWords, attempt, t). 36 - attempt)") auto

text \<open>\<open>[...pool].sort((a, b) => syllablesInWord(a) - syllablesInWord(b))\<close> is the stable
  ordering by ascending syllable count.\<close>

definition packNatural ::
  "rita \<Rightarrow> string list \<Rightarrow> nat \<Rightarrow> TopicKey \<Rightarrow> rng \<Rightarrow> nat \<Rightarrow> string list option \<times> rng" where
  "packNatural R pool target topic t minWords =
     (let imagerySorted = sort_key (syllablesInWord R) pool;
          glueSorted = sort_key (syllablesInWord R) GLUE_WORDS;
          (res, attempts, t') = naturalAttempts R imagerySorted glueSorted target minWords 0 t
      in (res, t'))"

section \<open>Exact packer\<close>

text \<open>The inner \<open>for\<close> loop over the rotated pool, from index \<open>i\<close> on; \<open>used\<close> is the
  set of indices already taken.\<close>

fun exactScan ::
  "rita \<Rightarrow> nat \<Rightarrow> string list \<Rightarrow> nat \<Rightarrow> string list \<Rightarrow> nat list \<Rightarrow> nat
    \<Rightarrow> string list \<times> nat list \<times> nat" where
  "exactScan R target [] i line used syl = (line, used, syl)"
| "exactScan R target (w # ws) i line used syl =
     (if syl < target then
        (if i \<in> set used then exactScan R target ws (Suc i) line used syl
         else (let s = syllablesInWord R w
               in if s = 0 then exactScan R target ws (Suc i) line used syl
                  else if syl + s \<le> target
                       then exactScan R target ws (Suc i) (line @ [w]) (i # used) (syl + s)
                       else exactScan R target ws (Suc i) line used syl))
      else (line, used, syl))"

text \<open>The filler step of a pass, entered with \<open>syl < target\<close>. The last component says
  whether the pass loop is left by \<open>break\<close>.\<close>

definition exactFill ::
  "rita \<Rightarrow> string list \<Rightarrow> nat \<Rightarrow> string list \<Rightarrow> nat \<Rightarrow> rng \<Rightarrow> string list \<times> nat \<times> rng \<times> bool" where
  "exactFill R fillers target line syl t =
     (let need = target - syl;
          exact = filter (\<lambda>w. syllablesInWord R w = need) fillers
      in if exact \<noteq> [] then
           (let (w, t') = pick t exact (hd exact) in (line @ [w], target, t', True))
         else if need \<ge> 2 then
           (let twos = filter (\<lambda>w. syllablesInWord R w = 2) fillers
            in if twos \<noteq> [] then (let (w, t') = pick t twos (hd twos) in (line @ [w], syl + 2, t', False))
               else (line, syl, t, False))
         else
           (let ones = filter (\<lambda>w. syllablesInWord R w = 1) fillers
            in if ones \<noteq> [] then (let (w, t') = pick t ones (hd ones) in (line @ [w], syl + 1, t', False))
               else (line, syl, t, False)))"

function exactPasses ::
  "rita \<Rightarrow> string list \<Rightarrow> nat \<Rightarrow> string list \<Rightarrow> nat \<Rightarrow> string list \<Rightarrow> nat list \<Rightarrow> nat \<Rightarrow> rng
    \<Rightarrow> string list \<times> nat list \<times> nat \<times> rng" where
  "exactPasses R fillers target rotated pass line used syl t =
     (if pass < 2 then
        (let (line1, used1, syl1) = exactScan R target rotated 0 line used syl
         in if syl1 = target then (line1, used1, syl1, t)
            else if syl1 < target then
              (let (line2, syl2, t2, brk) = exactFill R fillers target line1 syl1 t
               in if brk then (line2, used1, syl2, t2)
                  else exactPasses R fillers target rotated (Suc pass) line2 used1 syl2 t2)
            else exactPasses R fillers target rotated (Suc pass) line1 used1 syl1 t)
      else (line, used, syl, t))"
  by pat_completeness auto
termination
  by (relation "measure (\<lambda>(R, fillers, target, rotated, pass, line, used, syl, t). 2 - pass)") auto

text \<open>The \<open>for\<close> loop over the attempts of \<open>packExact\<close>; \<open>pool.slice(shift)\<close> and
  \<open>pool.slice(0, shift)\<close> are \<open>drop\<close> and \<open>take\<close>, also for a shift past the end.
  The second component of the result is the number of attempts made.\<close>

function exactAttempts ::
  "rita \<Rightarrow> string list \<Rightarrow> string list \<Rightarrow> nat \<Rightarrow> nat \<Rightarrow> rng \<Rightarrow> string list option \<times> nat \<times> rng" where
  "exactAttempts R pool fillers target attempt t =
     (if attempt \<le> 5 then
        (let (r, t1) = rand t;
             shift = attempt * 3 + randIndex r 3;
             rotated = (if pool \<noteq> [] then drop shift pool @ take shift pool else []);
             (line, used, syl, t2) = exactPasses R fillers target rotated 0 [] [] 0 t1
         in if syl = target then (Some line, Suc attempt, t2)
            else exactAttempts R pool fillers target (Suc attempt) t2)
      else (None, attempt, t))"
  by pat_completeness auto
termination
  by (relation "measure (\<lambda>(R, pool, fillers, target, attempt, t). 6 - attempt)") auto

definition packExact ::
  "rita \<Rightarrow> string list \<Rightarrow> nat \<Rightarrow> TopicKey \<Rightarrow> rng \<Rightarrow> string list option \<times> rng" where
  "packExact R pool target topic t =
     (let fillers = f1 (TOPIC_FILLERS topic) @ f2 (TOPIC_FILLERS topic);
          (res, attempts, t') = exactAttempts R pool fillers target 0 t
      in (res, t'))"

section \<open>Composing 5-7-5\<close>

text \<open>The loose fallback: one pass over the imagery words for each target.\<close>

fun looseLine :: "rita \<Rightarrow> nat \<Rightarrow> string list \<Rightarrow> string list \<Rightarrow> nat \<Rightarrow> string list" where
  "looseLine R t [] out syl = out"
| "looseLine R t (w # ws) out syl =
     (let s = syllablesInWord R w;
          out' = (if syl + s \<le> t then out @ [w] else out);
          syl' = (if syl + s \<le> t then syl + s else syl)
      in if syl' = t then out' else looseLine R t ws out' syl')"

definition fallbackLoose :: "rita \<Rightarrow> string \<Rightarrow> string" where
  "fallbackLoose R text =
     (let pool = imageryWords R text;
          lines = map (\<lambda>t. join '' '' (looseLine R t pool [] 0)) [5, 7, 5]
      in join [CHR 0x0A] lines)"

text \<open>The filter that keeps the first occurrence of every lower-cased key.\<close>

fun uniqueFilter :: "string list \<Rightarrow> string list \<Rightarrow> string list" where
  "uniqueFilter seen [] = []"
| "uniqueFilter seen (w # ws) =
     (let k = toLowerCase w
      in if k \<in> set seen then uniqueFilter seen ws else w # uniqueFilter (k # seen) ws)"

definition bannedWords :: "TopicKey \<Rightarrow> string list" where
  "bannedWords topic =
     map toLowerCase (case banned (TOPIC_FILLERS topic) of None \<Rightarrow> [] | Some b \<Rightarrow> b)"

text \<open>The local \<open>pool\<close> of \<open>composeHaikuRiTa\<close>: the imagery words that are not banned,
  followed by the nouns of the topic.\<close>

definition poolOf :: "rita \<Rightarrow> string \<Rightarrow> TopicKey \<Rightarrow> string list" where
  "poolOf R text topic =
     filter (\<lambda>w. w \<notin> set (bannedWords topic)) (imageryWords R text) @ nouns (TOPIC_FILLERS topic)"

definition uniquePool :: "rita \<Rightarrow> string \<Rightarrow> TopicKey \<Rightarrow> string list" where
  "uniquePool R text topic = uniqueFilter [] (poolOf R text topic)"

text \<open>\<open>(kigo.length && rand() < 0.5) ? pick(rand, kigo, kigo[0]).split(" ") : []\<close>.\<close>

definition kigoTokens :: "TopicKey \<Rightarrow> rng \<Rightarrow> string list \<times> rng" where
  "kigoTokens topic t =
     (let kg = (case kigo (TOPIC_FILLERS topic) of None \<Rightarrow> [] | Some k \<Rightarrow> k)
      in if kg \<noteq> [] then
           (let (r, t1) = rand t
            in if belowHalf r then (let (phrase, t2) = pick t1 kg (hd kg) in (splitOn CHR '' '' phrase, t2))
               else ([], t1))
         else ([], t))"

text \<open>\<open>packNatural(...) || packExact(...)\<close>: an array is truthy, \<open>null\<close> is not.\<close>

definition packLine ::
  "rita \<Rightarrow> string list \<Rightarrow> nat \<Rightarrow> TopicKey \<Rightarrow> rng \<Rightarrow> nat \<Rightarrow> string list option \<times> rng" where
  "packLine R pool target topic t minWords =
     (let (res, t') = packNatural R pool target topic t minWords
      in if res \<noteq> None then (res, t') else packExact R pool target topic t')"

definition topicOf :: "string \<Rightarrow> TopicKey" where
  "topicOf text = scoreTopic (splitSpaces (toLowerCase text))"

definition workingPool :: "rita \<Rightarrow> string \<Rightarrow> int \<Rightarrow> string list \<times> rng" where
  "workingPool R text seed =
     (let t0 = mulberry32 (if seed = 0 then 1 else seed);
          topic = topicOf text;
          (kt, t1) = kigoTokens topic t0
      in (kt @ uniquePool R text topic, t1))"

text \<open>The three lines \<open>L1\<close>, \<open>L2\<close>, \<open>L3\<close> of \<open>composeHaikuRiTa\<close> and the generator
  after them.\<close>

definition composeLines ::
  "rita \<Rightarrow> string \<Rightarrow> int \<Rightarrow> (string list option \<times> string list option \<times> string list option) \<times> rng" where
  "composeLines R text seed =
     (let topic = topicOf text;
          (pool, t1) = workingPool R text seed;
          (L1, t2) = packLine R pool 5 topic t1 3;
          (L2, t3) = packLine R pool 7 topic t2 4;
          (L3, t4) = packLine R pool 5 topic t3 3
      in ((L1, L2, L3), t4))"

definition composeHaikuRiTa :: "rita \<Rightarrow> string \<Rightarrow> int \<Rightarrow> string" where
  "composeHaikuRiTa R text seed =
     (case fst (composeLines R text seed) of
        (Some L1, Some L2, Some L3) \<Rightarrow> join [CHR 0x0A] [join '' '' L1, join '' '' L2, join '' '' L3]
      | _ \<Rightarrow> fallbackLoose R text)"

definition countLine :: "rita \<Rightarrow> string \<Rightarrow> nat" where
  "countLine R line = foldl (\<lambda>s w. s + syllablesInWord R w) 0 (splitSpaces line)"

text \<open>\<open>const [a = "", b = "", c = ""] = haiku.split("\n")\<close>.\<close>

definition nthOr :: "'a \<Rightarrow> 'a list \<Rightarrow> nat \<Rightarrow> 'a" where
  "nthOr d xs i = (if i < length xs then xs ! i else d)"

definition count575 :: "rita \<Rightarrow> string \<Rightarrow> nat list" where
  "count575 R haiku =
     (let parts = splitOn (CHR 0x0A) haiku
      in [countLine R (nthOr [] parts 0), countLine R (nthOr [] parts 1), countLine R (nthOr [] parts 2)])"

section \<open>Auxiliary notions\<close>

text \<open>A word without white space.\<close>

definition noSpace :: "string \<Rightarrow> bool" where
  "noSpace w = list_all (\<lambda>c. \<not> isSpace c) w"

text \<open>The syllables of a line: the sum of \<open>syllablesInWord\<close> over its words.\<close>

definition sylSum :: "rita \<Rightarrow> string list \<Rightarrow> nat" where
  "sylSum R ws = sum_list (map (syllablesInWord R) ws)"

text \<open>The three tests \<open>packNatural\<close> makes before it returns a line.\<close>

definition natural :: "nat \<Rightarrow> string list \<Rightarrow> bool" where
  "natural minWords ws =
     (minWords \<le> length ws \<and> ceil06 minWords \<le> length (filter (\<lambda>w. \<not> isGlue w) ws)
      \<and> length ws - length (filter (\<lambda>w. \<not> isGlue w) ws) \<le> ceilHalf (length ws))"

text \<open>The number of words of a list that are counted as one syllable.\<close>

definition monoCount :: "rita \<Rightarrow> string list \<Rightarrow> nat" where
  "monoCount R ws = length (filter (\<lambda>w. syllablesInWord R w = 1) ws)"

text \<open>The words a line of the primary path can be made of: the pool, the glue words and the
  fillers of the topic.\<close>

definition lineWords :: "string list \<Rightarrow> TopicKey \<Rightarrow> string set" where
  "lineWords pool topic =
     set pool \<union> set GLUE_WORDS \<union> set (f1 (TOPIC_FILLERS topic)) \<union> set (f2 (TOPIC_FILLERS topic))"

text \<open>The classifier as the specification describes it: the score of a topic is the sum
  over its keywords of 2 for an exact match among the lower-cased tokens plus 1 when some
  token contains the keyword; the topic with the highest score wins, the first declared
  among equals, and a best score of 0 gives \<open>generic\<close>.\<close>

definition specScore :: "string list \<Rightarrow> TopicKey \<Rightarrow> nat" where
  "specScore lower k =
     sum_list (map (\<lambda>kw. (if kw \<in> set lower then 2 else 0)
                          + (if list_ex (\<lambda>t. includes_str t kw) lower then 1 else 0))
                   (TOPIC_KEYWORDS k))"

definition classifyTopic_spec :: "string list \<Rightarrow> TopicKey" where
  "classifyTopic_spec tokens =
     (let lower = map toLowerCase tokens;
          best = foldr max (map (specScore lower) topicKeys) 0
      in if best = 0 then Generic
         else hd (filter (\<lambda>k. specScore lower k = best) topicKeys))"

text \<open>No two adjacent words of the line are both in the glue set.\<close>

fun noGlueGlue :: "string list \<Rightarrow> bool" where
  "noGlueGlue (x # y # zs) = (\<not> (isGlue x \<and> isGlue y) \<and> noGlueGlue (y # zs))"
| "noGlueGlue [x] = True"
| "noGlueGlue [] = True"

text \<open>The invariant of the growth loop behind the absence of adjacent glue words: every
  word of the line has a syllable, and two adjacent glue words can only have arisen in a
  step where no word of the pool fitted, which needs a pool without one-syllable words.\<close>

definition glueInv :: "rita \<Rightarrow> string list \<Rightarrow> string list \<Rightarrow> string list \<Rightarrow> bool" where
  "glueInv R imagerySorted glueSorted words =
     (list_all (\<lambda>w. 0 < syllablesInWord R w) words
      \<and> set words \<subseteq> set imagerySorted \<union> set glueSorted
      \<and> (noGlueGlue words \<or> list_all (\<lambda>w. syllablesInWord R w \<noteq> 1) imagerySorted))"

text \<open>A sample instance of the linguistic services, for the concrete evaluations: the
  syllable breakdowns of the polysyllabic words of the beach vocabulary and of the glue
  list, every other word counted as one syllable; tokens split at white space; a few
  tags listed (\<open>near\<close> as an adjective, its tag in \<open>the near shore\<close>) and every other
  token tagged as a noun.\<close>

definition demoSyllableTable :: "(string \<times> string) list" where
  "demoSyllableTable = [
     (''ocean'', ''ow/sh-ah-n''), (''seagull'', ''s-iy/g-ah-l''), (''seagulls'', ''s-iy/g-ah-l-z''),
     (''sunglasses'', ''s-ah-n/g-l-ae/s-ih-z''), (''sunblock'', ''s-ah-n/b-l-aa-k''),
     (''volleyball'', ''v-aa/l-iy/b-ao-l''), (''umbrella'', ''ah-m/b-r-eh/l-ah''),
     (''boardwalk'', ''b-ao-r-d/w-ao-k''), (''sunlit'', ''s-ah-n/l-ih-t''), (''silver'', ''s-ih-l/v-er''),
     (''quiet'', ''k-w-ay/ah-t''), (''summer'', ''s-ah/m-er''), (''under'', ''ah-n/d-er''),
     (''over'', ''ow/v-er''), (''into'', ''ih-n/t-uw''), (''along'', ''ah/l-ao-ng'')]"

definition demoTagTable :: "(string \<times> string) list" where
  "demoTagTable = [(''the'', ''dt''), (''a'', ''dt''), (''on'', ''in''), (''under'', ''in''),
     (''crashed'', ''vbd''), (''warm'', ''jj''), (''bright'', ''jj''), (''near'', ''jj'')]"

definition demoRita :: rita where
  "demoRita = \<lparr>
     rita_syllables = (\<lambda>w. case map_of demoSyllableTable w of Some s \<Rightarrow> Some s | None \<Rightarrow> Some w),
     rita_tokenize = splitSpaces,
     rita_pos = map (\<lambda>w. case map_of demoTagTable w of Some g \<Rightarrow> g | None \<Rightarrow> ''nn'') \<rparr>"

definition demoText :: string where
  "demoText = ''the waves crashed on the warm sand under a bright sky''"

text \<open>The same services with a syllable lookup that fails: \<open>RiTa.syllables\<close> returns the
  empty string for every word, the case \<open>syllablesInWord\<close> turns into the count 0.\<close>

definition failingRita :: rita where
  "failingRita = demoRita \<lparr> rita_syllables := (\<lambda>w. Some []) \<rparr>"

text \<open>A text with a glue word used as an adjective, and the working pool the composer
  builds from it for the seed 50.\<close>

definition nearText :: string where
  "nearText = ''the near shore''"

definition nearPool :: "string list" where
  "nearPool = [''near'', ''shore'', ''ocean'', ''sea'', ''sand'', ''dune'', ''dunes'', ''tide'', ''tides'',
     ''wave'', ''waves'', ''foam'', ''surf'', ''shell'', ''shells'', ''seagull'', ''seagulls'', ''sunglasses'',
     ''sunblock'', ''volleyball'', ''umbrella'', ''boardwalk'', ''pier'']"

section \<open>Splitting and joining\<close>

lemma splitWhen_nonempty: "splitWhen p s \<noteq> []"
  by (induction s) (auto simp: Let_def)

lemma splitWhen_append_clean:
  "list_all (\<lambda>c. \<not> p c) w \<Longrightarrow>
   splitWhen p (w @ s) = (w @ hd (splitWhen p s)) # tl (splitWhen p s)"
  using splitWhen_nonempty [of p s]
  by (induction w) (auto simp: Let_def)

lemma splitWhen_clean: "list_all (\<lambda>c. \<not> p c) w \<Longrightarrow> splitWhen p w = [w]"
  using splitWhen_append_clean [of p w "[]"] by simp

lemma splitWhen_join:
  "list_all (list_all (\<lambda>c. \<not> p c)) ws \<Longrightarrow> p sep \<Longrightarrow> ws \<noteq> [] \<Longrightarrow>
   splitWhen p (join [sep] ws) = ws"
proof (induction "[sep]" ws rule: join.induct)
  case 1
  then show ?case by simp
next
  case (2 x)
  then show ?case by (simp add: splitWhen_clean)
next
  case (3 x y ys)
  then show ?case by (simp add: splitWhen_append_clean Let_def)
qed

lemma splitSpaces_join:
  assumes "list_all noSpace ws"
  shows "splitSpaces (join '' '' ws) = filter (\<lambda>w. w \<noteq> []) ws"
proof (cases "ws = []")
  case True
  then show ?thesis by (simp add: splitSpaces_def)
next
  case False
  have sp: "isSpace CHR '' ''" by (simp add: isSpace_def)
  have "list_all (list_all (\<lambda>c. \<not> isSpace c)) ws"
    using assms by (simp add: noSpace_def list_all_iff)
  from splitWhen_join [OF this sp False] show ?thesis
    by (simp add: splitSpaces_def)
qed

lemma set_join: "c \<in> set (join sep ws) \<Longrightarrow> c \<in> set sep \<or> (\<exists>w \<in> set ws. c \<in> set w)"
  by (induction sep ws rule: join.induct) auto

lemma syllablesInWord_Nil: "syllablesInWord R [] = 0"
  by (simp add: syllablesInWord_def)

lemma foldl_syl: "foldl (\<lambda>s w. s + syllablesInWord R w) a ws = a + sylSum R ws"
  by (induction ws arbitrary: a) (auto simp: sylSum_def)

lemma sylSum_filter_nonempty: "sylSum R (filter (\<lambda>w. w \<noteq> []) ws) = sylSum R ws"
  by (induction ws) (auto simp: sylSum_def syllablesInWord_Nil)

lemma countLine_join: "list_all noSpace ws \<Longrightarrow> countLine R (join '' '' ws) = sylSum R ws"
  by (simp add: countLine_def splitSpaces_join foldl_syl sylSum_filter_nonempty)

lemma join_space_no_newline:
  assumes "list_all noSpace ws"
  shows "list_all (\<lambda>c. \<not> c = CHR 0x0A) (join '' '' ws)"
proof -
  have nl: "isSpace (CHR 0x0A)" by (simp add: isSpace_def)
  have "c \<noteq> CHR 0x0A" if "c \<in> set (join '' '' ws)" for c
  proof -
    from set_join [OF that] consider "c = CHR '' ''" | w where "w \<in> set ws" "c \<in> set w"
      by auto
    then show ?thesis
    proof cases
      case 1
      then show ?thesis by simp
    next
      case 2
      with assms have "\<not> isSpace c" by (auto simp: noSpace_def list_all_iff)
      with nl show ?thesis by auto
    qed
  qed
  then show ?thesis by (auto simp: list_all_iff)
qed

lemma count575_join:
  assumes "list_all noSpace l1" "list_all noSpace l2" "list_all noSpace l3"
  shows "count575 R (join [CHR 0x0A] [join '' '' l1, join '' '' l2, join '' '' l3])
         = [sylSum R l1, sylSum R l2, sylSum R l3]"
proof -
  have "list_all (list_all (\<lambda>c. \<not> c = CHR 0x0A)) [join '' '' l1, join '' '' l2, join '' '' l3]"
    using assms by (simp add: join_space_no_newline)
  then have "splitWhen (\<lambda>c. c = CHR 0x0A) (join [CHR 0x0A] [join '' '' l1, join '' '' l2, join '' '' l3])
     = [join '' '' l1, join '' '' l2, join '' '' l3]"
    by (intro splitWhen_join) simp_all
  then show ?thesis
    using assms by (simp add: count575_def splitOn_def nthOr_def countLine_join)
qed

section \<open>The generator\<close>

lemma uint_randIndex: "0 < n \<Longrightarrow> randIndex r n < n"
proof -
  assume n: "0 < n"
  have "uint r < 4294967296" using uint_bounded [of r] by simp
  then have "uint r * int n < 4294967296 * int n" using n by simp
  then have "(uint r * int n) div 4294967296 < int n"
    by (simp add: div_less_iff_less_mult)
  moreover have "0 \<le> (uint r * int n) div 4294967296"
    by (simp add: pos_imp_zdiv_nonneg_iff)
  ultimately show ?thesis unfolding randIndex_def by (simp add: nat_less_iff)
qed

lemma snd_rand: "snd (rand t) = t + 0x6D2B79F5"
  by (simp add: rand_def Let_def)

lemma pick_mem: "arr \<noteq> [] \<Longrightarrow> fst (pick t arr d) \<in> set arr"
  by (auto simp: pick_def split: prod.splits intro!: nth_mem uint_randIndex)

lemma pick_gen: "snd (pick t arr d) = (if arr = [] then t else t + 0x6D2B79F5)"
  using snd_rand [of t] by (auto simp: pick_def split: prod.splits)

declare growLoop.simps [simp del] naturalAttempts.simps [simp del]
  exactPasses.simps [simp del] exactAttempts.simps [simp del]
  TOPIC_FILLERS.simps [simp del] TOPIC_KEYWORDS.simps [simp del]

lemma pick_memE: "pick t arr d = (w, t') \<Longrightarrow> arr \<noteq> [] \<Longrightarrow> w \<in> set arr"
  using pick_mem [of arr t d] by simp

lemma pick_genE: "pick t arr d = (w, t') \<Longrightarrow> arr \<noteq> [] \<Longrightarrow> t' = t + 0x6D2B79F5"
  using pick_gen [of t arr d] by simp

lemma preferGlue_gen:
  "preferGlue words t = (g, t1) \<Longrightarrow> t \<le> t1 \<and> t1 \<le> t + 0x6D2B79F5"
  using snd_rand [of t] by (auto simp: preferGlue_def split: if_splits prod.splits)

section \<open>The natural packer\<close>

lemma growStep_sum:
  assumes "growStep R imagerySorted glueSorted target words syl t = (brk, words', syl', t')"
    and "sylSum R words = syl"
  shows "sylSum R words' = syl'"
  using assms
  by (auto simp: growStep_def Let_def sylSum_def split: prod.splits if_splits)

lemma growStep_set:
  assumes "growStep R imagerySorted glueSorted target words syl t = (brk, words', syl', t')"
  shows "set words' \<subseteq> set words \<union> set imagerySorted \<union> set glueSorted"
proof -
  have mem: "w \<in> set xs" if "pick a (filter P xs) d = (w, b)" "filter P xs \<noteq> []" for a P xs d w b
    using pick_memE [OF that] by simp
  show ?thesis
    using assms
    by (auto simp: growStep_def Let_def split: prod.splits if_splits dest!: pick_memE)
qed

lemma growStep_gen:
  assumes "growStep R imagerySorted glueSorted target words syl t = (brk, words', syl', t')"
  shows "t \<le> t' \<and> t' \<le> t + 2 * 0x6D2B79F5"
  using assms
  by (auto simp: growStep_def Let_def split: prod.splits if_splits
      dest!: preferGlue_gen pick_genE)

lemma growLoop_inv:
  assumes "growLoop R imagerySorted glueSorted target guard words syl t = (n, ws, s, t')"
    and "P guard words syl t"
    and "\<And>guard words syl t brk words' syl' t'.
           P guard words syl t \<Longrightarrow> syl < target \<Longrightarrow> guard < 160 \<Longrightarrow>
           growStep R imagerySorted glueSorted target words syl t = (brk, words', syl', t') \<Longrightarrow>
           P (Suc guard) words' syl' t'"
  shows "P n ws s t'"
  using assms
proof (induction R imagerySorted glueSorted target guard words syl t rule: growLoop.induct)
  case (1 R imagerySorted glueSorted target guard words syl t)
  show ?case
  proof (cases "syl < target \<and> guard < 160")
    case False
    with "1.prems"(1,2) show ?thesis by (simp add: growLoop.simps)
  next
    case True
    obtain brk words' syl' t1 where st:
      "growStep R imagerySorted glueSorted target words syl t = (brk, words', syl', t1)"
      by (cases "growStep R imagerySorted glueSorted target words syl t") auto
    have P': "P (Suc guard) words' syl' t1"
      using "1.prems"(3) [OF "1.prems"(2) _ _ st] True by simp
    show ?thesis
    proof (cases brk)
      case True
      with \<open>syl < target \<and> guard < 160\<close> st "1.prems"(1) P' show ?thesis
        by (simp add: growLoop.simps)
    next
      case False
      with \<open>syl < target \<and> guard < 160\<close> st "1.prems"(1) have
        "growLoop R imagerySorted glueSorted target (Suc guard) words' syl' t1 = (n, ws, s, t')"
        by (simp add: growLoop.simps)
      from "1.IH" [OF \<open>syl < target \<and> guard < 160\<close> st [symmetric] refl refl refl False this P' "1.prems"(3)]
      show ?thesis by simp
    qed
  qed
qed

lemma growLoop_sum:
  assumes "growLoop R imagerySorted glueSorted target guard words syl t = (n, ws, s, t')"
    and "sylSum R words = syl"
  shows "sylSum R ws = s"
  by (rule growLoop_inv [OF assms(1), where P = "\<lambda>g w s t. sylSum R w = s"])
     (use assms(2) growStep_sum in auto)

lemma growLoop_set:
  assumes "growLoop R imagerySorted glueSorted target guard words syl t = (n, ws, s, t')"
    and "set words \<subseteq> set imagerySorted \<union> set glueSorted"
  shows "set ws \<subseteq> set imagerySorted \<union> set glueSorted"
  by (rule growLoop_inv [OF assms(1), where P = "\<lambda>g w s t. set w \<subseteq> set imagerySorted \<union> set glueSorted"])
     (use assms(2) growStep_set in blast)+

lemma growLoop_count:
  assumes "growLoop R imagerySorted glueSorted target guard words syl t = (n, ws, s, t')"
    and "guard \<le> 160"
  shows "guard \<le> n \<and> n \<le> 160 \<and> t \<le> t' \<and> t' \<le> t + 2 * 0x6D2B79F5 * (int n - int guard)"
proof -
  let ?P = "\<lambda>g (w :: string list) (s :: nat) u.
      guard \<le> g \<and> g \<le> 160 \<and> t \<le> u \<and> u \<le> t + 2 * 0x6D2B79F5 * (int g - int guard)"
  have "?P n ws s t'"
  proof (rule growLoop_inv [OF assms(1), where P = ?P])
    show "?P guard words syl t" using assms(2) by simp
  next
    fix g w s u brk w' s' u'
    assume P: "?P g w s u" and g: "g < 160"
      and st: "growStep R imagerySorted glueSorted target w s u = (brk, w', s', u')"
    from growStep_gen [OF st] have "u \<le> u'" "u' \<le> u + 2 * 0x6D2B79F5" by simp_all
    moreover have "int (Suc g - guard) = (int g - int guard) + 1" using P by auto
    ultimately show "?P (Suc g) w' s' u'" using P g by (simp add: algebra_simps)
  qed
  then show ?thesis .
qed

lemma naturalAttempts_res:
  assumes "naturalAttempts R imagerySorted glueSorted target minWords attempt t = (res, n, t')"
    and "attempt \<le> 36"
  shows "attempt \<le> n \<and> n \<le> 36 \<and> t \<le> t' \<and> t' \<le> t + 320 * 0x6D2B79F5 * (int n - int attempt)
         \<and> (case res of None \<Rightarrow> True
             | Some ws \<Rightarrow> sylSum R ws = target \<and> set ws \<subseteq> set imagerySorted \<union> set glueSorted
                  \<and> natural minWords ws)"
  using assms
proof (induction R imagerySorted glueSorted target minWords attempt t rule: naturalAttempts.induct)
  case (1 R imagerySorted glueSorted target minWords attempt t)
  show ?case
  proof (cases "attempt < 36")
    case False
    with "1.prems" show ?thesis by (simp add: naturalAttempts.simps)
  next
    case True
    obtain guard words syl t1 where gl:
      "growLoop R imagerySorted glueSorted target 0 [] 0 t = (guard, words, syl, t1)"
      by (cases "growLoop R imagerySorted glueSorted target 0 [] 0 t") auto
    from growLoop_count [OF gl] have gen: "t \<le> t1" "t1 \<le> t + 2 * 0x6D2B79F5 * int guard" "guard \<le> 160"
      by simp_all
    then have gen': "t1 \<le> t + 320 * 0x6D2B79F5" by simp
    have sum: "sylSum R words = syl" using growLoop_sum [OF gl] by (simp add: sylSum_def)
    have sub: "set words \<subseteq> set imagerySorted \<union> set glueSorted" using growLoop_set [OF gl] by simp
    let ?ok = "syl = target \<and> natural minWords words"
    show ?thesis
    proof (cases ?ok)
      case True
      with \<open>attempt < 36\<close> gl "1.prems"(1) have "res = Some words" "n = Suc attempt" "t' = t1"
        by (simp_all add: naturalAttempts.simps natural_def Let_def)
      with True sum sub gen gen' \<open>attempt < 36\<close> show ?thesis by simp
    next
      case False
      with \<open>attempt < 36\<close> gl "1.prems"(1) have rec:
        "naturalAttempts R imagerySorted glueSorted target minWords (Suc attempt) t1 = (res, n, t')"
        by (auto simp: naturalAttempts.simps natural_def Let_def split: if_splits)
      have IH: "Suc attempt \<le> n \<and> n \<le> 36 \<and> t1 \<le> t' \<and> t' \<le> t1 + 320 * 0x6D2B79F5 * (int n - int (Suc attempt))
         \<and> (case res of None \<Rightarrow> True
             | Some ws \<Rightarrow> sylSum R ws = target \<and> set ws \<subseteq> set imagerySorted \<union> set glueSorted
                  \<and> natural minWords ws)"
      proof (cases "syl = target")
        case True
        with False have nn: "\<not> (minWords \<le> length words \<and> ceil06 minWords \<le> length (filter (\<lambda>w. \<not> isGlue w) words)
          \<and> length words - length (filter (\<lambda>w. \<not> isGlue w) words) \<le> ceilHalf (length words))"
          by (simp add: natural_def)
        from "1.IH"(2) [OF \<open>attempt < 36\<close> gl [symmetric] refl refl refl _ refl refl nn rec] True \<open>attempt < 36\<close>
        show ?thesis by simp
      next
        case False
        from "1.IH"(1) [OF \<open>attempt < 36\<close> gl [symmetric] refl refl refl False rec] \<open>attempt < 36\<close>
        show ?thesis by simp
      qed
      with gen gen' show ?thesis by (simp add: algebra_simps)
    qed
  qed
qed

lemma packNatural_res:
  assumes "packNatural R pool target topic t minWords = (res, t')"
  shows "t \<le> t' \<and> t' \<le> t + 11520 * 0x6D2B79F5
         \<and> (case res of None \<Rightarrow> True
             | Some ws \<Rightarrow> sylSum R ws = target \<and> set ws \<subseteq> set pool \<union> set GLUE_WORDS
                  \<and> natural minWords ws)"
proof -
  obtain n where na: "naturalAttempts R (sort_key (syllablesInWord R) pool)
      (sort_key (syllablesInWord R) GLUE_WORDS) target minWords 0 t = (res, n, t')"
    using assms by (auto simp: packNatural_def Let_def split: prod.splits)
  from naturalAttempts_res [OF na] have
    b: "n \<le> 36" "t \<le> t'" "t' \<le> t + 320 * 0x6D2B79F5 * int n"
    and r: "(case res of None \<Rightarrow> True
             | Some ws \<Rightarrow> sylSum R ws = target \<and> set ws \<subseteq> set pool \<union> set GLUE_WORDS
                  \<and> natural minWords ws)"
    by (auto split: option.splits)
  from b have "t' \<le> t + 11520 * 0x6D2B79F5" by simp
  with b r show ?thesis by simp
qed

section \<open>The exact packer\<close>

lemma exactScan_res:
  assumes "exactScan R target ws i line used syl = (line', used', syl')"
    and "sylSum R line = syl"
  shows "sylSum R line' = syl' \<and> set line' \<subseteq> set line \<union> set ws"
  using assms
proof (induction ws arbitrary: i line used syl)
  case Nil
  then show ?case by simp
next
  case (Cons w ws)
  show ?case
  proof (cases "syl < target \<and> i \<notin> set used \<and> syllablesInWord R w \<noteq> 0 \<and> syl + syllablesInWord R w \<le> target")
    case True
    with Cons.prems have "exactScan R target ws (Suc i) (line @ [w]) (i # used) (syl + syllablesInWord R w) = (line', used', syl')"
      by (simp add: Let_def)
    from Cons.IH [OF this] Cons.prems(2) show ?thesis by (auto simp: sylSum_def)
  next
    case False
    show ?thesis
    proof (cases "syl < target")
      case True
      with False Cons.prems have "exactScan R target ws (Suc i) line used syl = (line', used', syl')"
        by (auto simp: Let_def split: if_splits)
      from Cons.IH [OF this] Cons.prems(2) show ?thesis by auto
    next
      case False
      with Cons.prems show ?thesis by auto
    qed
  qed
qed

lemma exactScan_fill:
  assumes "exactScan R target ws i line used syl = (line', used', syl')"
    and "list_all (\<lambda>j. j < i) used" and "syl \<le> target"
  shows "syl' \<le> target \<and> min target (syl + monoCount R ws) \<le> syl'"
  using assms
proof (induction ws arbitrary: i line used syl)
  case Nil
  then show ?case by (simp add: monoCount_def)
next
  case (Cons w ws)
  show ?case
  proof (cases "syl < target")
    case False
    with Cons.prems show ?thesis by simp
  next
    case lt: True
    have notin: "i \<notin> set used" using Cons.prems(2) by (auto simp: list_all_iff)
    show ?thesis
    proof (cases "syllablesInWord R w \<noteq> 0 \<and> syl + syllablesInWord R w \<le> target")
      case True
      with lt notin Cons.prems(1) have
        "exactScan R target ws (Suc i) (line @ [w]) (i # used) (syl + syllablesInWord R w) = (line', used', syl')"
        by (simp add: Let_def)
      moreover have "list_all (\<lambda>j. j < Suc i) (i # used)"
        using Cons.prems(2) by (auto simp: list_all_iff)
      ultimately have "syl' \<le> target \<and> min target (syl + syllablesInWord R w + monoCount R ws) \<le> syl'"
        using Cons.IH True by blast
      moreover have "monoCount R (w # ws) \<le> syllablesInWord R w + monoCount R ws"
        by (simp add: monoCount_def)
      ultimately show ?thesis by auto
    next
      case False
      with lt notin Cons.prems(1) have
        "exactScan R target ws (Suc i) line used syl = (line', used', syl')"
        by (auto simp: Let_def split: if_splits)
      moreover have "list_all (\<lambda>j. j < Suc i) used"
        using Cons.prems(2) by (auto simp: list_all_iff)
      ultimately have "syl' \<le> target \<and> min target (syl + monoCount R ws) \<le> syl'"
        using Cons.IH Cons.prems(3) by blast
      moreover have "syllablesInWord R w \<noteq> 1" using False lt by auto
      then have "monoCount R (w # ws) = monoCount R ws" by (simp add: monoCount_def)
      ultimately show ?thesis by simp
    qed
  qed
qed

lemma exactFill_res:
  assumes "exactFill R fillers target line syl t = (line', syl', t', brk)"
    and "sylSum R line = syl" and "syl < target"
  shows "sylSum R line' = syl' \<and> set line' \<subseteq> set line \<union> set fillers
         \<and> t \<le> t' \<and> t' \<le> t + 0x6D2B79F5"
proof -
  have mem: "syllablesInWord R w = k \<and> w \<in> set fillers"
    if "pick a (filter (\<lambda>w. syllablesInWord R w = k) fillers) d = (w, b)"
       "filter (\<lambda>w. syllablesInWord R w = k) fillers \<noteq> []" for a k d w b
    using pick_memE [OF that] by simp
  show ?thesis
    using assms
    by (auto simp: exactFill_def Let_def sylSum_def split: prod.splits if_splits
        dest: mem pick_genE)
qed

lemma exactPasses_res:
  assumes "exactPasses R fillers target rotated pass line used syl t = (line', used', syl', t')"
    and "sylSum R line = syl" and "pass \<le> 2"
  shows "sylSum R line' = syl' \<and> set line' \<subseteq> set line \<union> set rotated \<union> set fillers
         \<and> t \<le> t' \<and> t' \<le> t + 0x6D2B79F5 * (2 - int pass)"
  using assms
proof (induction R fillers target rotated pass line used syl t rule: exactPasses.induct)
  case (1 R fillers target rotated pass line used syl t)
  show ?case
  proof (cases "pass < 2")
    case False
    with "1.prems" show ?thesis by (auto simp: exactPasses.simps)
  next
    case True
    obtain line1 used1 syl1 where sc: "exactScan R target rotated 0 line used syl = (line1, used1, syl1)"
      by (cases "exactScan R target rotated 0 line used syl") auto
    from exactScan_res [OF sc "1.prems"(2)] have
      s1: "sylSum R line1 = syl1" and m1: "set line1 \<subseteq> set line \<union> set rotated" by simp_all
    consider (eq) "syl1 = target" | (lt) "syl1 < target" | (gt) "target < syl1" by linarith
    then show ?thesis
    proof cases
      case eq
      with True sc "1.prems"(1) have "line' = line1" "syl' = syl1" "t' = t"
        by (simp_all add: exactPasses.simps)
      with s1 m1 True show ?thesis by auto
    next
      case gt
      with True sc "1.prems"(1) have rec:
        "exactPasses R fillers target rotated (Suc pass) line1 used1 syl1 t = (line', used', syl', t')"
        by (simp add: exactPasses.simps)
      from gt have ne: "syl1 \<noteq> target" "\<not> syl1 < target" by simp_all
      from "1.IH"(2) [OF True sc [symmetric] refl refl ne rec s1] True m1
      show ?thesis by auto
    next
      case lt
      obtain line2 syl2 t2 brk where fl: "exactFill R fillers target line1 syl1 t = (line2, syl2, t2, brk)"
        by (cases "exactFill R fillers target line1 syl1 t") auto
      from exactFill_res [OF fl s1 lt] have
        s2: "sylSum R line2 = syl2" and m2: "set line2 \<subseteq> set line1 \<union> set fillers"
        and g2: "t \<le> t2" "t2 \<le> t + 0x6D2B79F5" by simp_all
      from lt have ne: "syl1 \<noteq> target" by simp
      show ?thesis
      proof (cases brk)
        case True
        with \<open>pass < 2\<close> sc fl lt "1.prems"(1) have "line' = line2" "syl' = syl2" "t' = t2"
          by (simp_all add: exactPasses.simps)
        with s2 m2 m1 g2 \<open>pass < 2\<close> show ?thesis by auto
      next
        case False
        with \<open>pass < 2\<close> sc fl lt "1.prems"(1) have rec:
          "exactPasses R fillers target rotated (Suc pass) line2 used1 syl2 t2 = (line', used', syl', t')"
          by (simp add: exactPasses.simps)
        from "1.IH"(1) [OF \<open>pass < 2\<close> sc [symmetric] refl refl ne lt fl [symmetric] refl refl refl False rec s2]
          \<open>pass < 2\<close> m1 m2 g2
        show ?thesis by auto
      qed
    qed
  qed
qed

lemma exactPasses_first:
  assumes "exactScan R target rotated 0 line used syl = (line1, used1, target)"
  shows "exactPasses R fillers target rotated 0 line used syl t = (line1, used1, target, t)"
  using assms by (simp add: exactPasses.simps)

lemma monoCount_rotate: "monoCount R (drop k xs @ take k xs) = monoCount R xs"
proof -
  have "filter (\<lambda>w. syllablesInWord R w = 1) (take k xs @ drop k xs)
        = filter (\<lambda>w. syllablesInWord R w = 1) xs" by simp
  then have "length (filter (\<lambda>w. syllablesInWord R w = 1) (take k xs))
        + length (filter (\<lambda>w. syllablesInWord R w = 1) (drop k xs))
        = length (filter (\<lambda>w. syllablesInWord R w = 1) xs)"
    by (metis filter_append length_append)
  then show ?thesis by (simp add: monoCount_def)
qed

lemma exactAttempts_res:
  assumes "exactAttempts R pool fillers target attempt t = (res, n, t')"
    and "attempt \<le> 6"
  shows "attempt \<le> n \<and> n \<le> 6 \<and> t \<le> t' \<and> t' \<le> t + 3 * 0x6D2B79F5 * (int n - int attempt)
         \<and> (case res of None \<Rightarrow> True
             | Some ws \<Rightarrow> sylSum R ws = target \<and> set ws \<subseteq> set pool \<union> set fillers)"
  using assms
proof (induction R pool fillers target attempt t rule: exactAttempts.induct)
  case (1 R pool fillers target attempt t)
  show ?case
  proof (cases "attempt \<le> 5")
    case False
    with "1.prems" show ?thesis by (simp add: exactAttempts.simps)
  next
    case True
    obtain r t1 where rd: "rand t = (r, t1)" by (cases "rand t") auto
    then have t1: "t1 = t + 0x6D2B79F5" using snd_rand [of t] by simp
    define rotated where "rotated =
      (if pool \<noteq> [] then drop (attempt * 3 + randIndex r 3) pool @ take (attempt * 3 + randIndex r 3) pool else [])"
    obtain line used syl t2 where ps:
      "exactPasses R fillers target rotated 0 [] [] 0 t1 = (line, used, syl, t2)"
      by (cases "exactPasses R fillers target rotated 0 [] [] 0 t1") auto
    have rot: "set rotated \<subseteq> set pool"
      by (auto simp: rotated_def dest: in_set_dropD in_set_takeD)
    from exactPasses_res [OF ps] have
      s: "sylSum R line = syl" and m: "set line \<subseteq> set rotated \<union> set fillers"
      and g: "t1 \<le> t2" "t2 \<le> t1 + 2 * 0x6D2B79F5" by (simp_all add: sylSum_def)
    show ?thesis
    proof (cases "syl = target")
      case eq: True
      with True rd ps "1.prems"(1) have "res = Some line" "n = Suc attempt" "t' = t2"
        by (simp_all add: exactAttempts.simps rotated_def Let_def)
      with eq s m rot g t1 True show ?thesis by auto
    next
      case False
      with True rd ps "1.prems"(1) have rec:
        "exactAttempts R pool fillers target (Suc attempt) t2 = (res, n, t')"
        by (simp add: exactAttempts.simps rotated_def Let_def)
      from "1.IH" [OF True rd [symmetric] refl refl rotated_def ps [symmetric] refl refl refl False rec] True
      have "Suc attempt \<le> n \<and> n \<le> 6 \<and> t2 \<le> t' \<and> t' \<le> t2 + 3 * 0x6D2B79F5 * (int n - int (Suc attempt))
         \<and> (case res of None \<Rightarrow> True
             | Some ws \<Rightarrow> sylSum R ws = target \<and> set ws \<subseteq> set pool \<union> set fillers)"
        by simp
      with g t1 show ?thesis by (simp add: algebra_simps)
    qed
  qed
qed

lemma exactAttempts_first:
  assumes "target \<le> monoCount R pool"
  shows "fst (exactAttempts R pool fillers target 0 t) \<noteq> None"
proof -
  obtain r t1 where rd: "rand t = (r, t1)" by (cases "rand t") auto
  define rotated where "rotated = drop (randIndex r 3) pool @ take (randIndex r 3) pool"
  obtain line1 used1 syl1 where sc: "exactScan R target rotated 0 [] [] 0 = (line1, used1, syl1)"
    by (cases "exactScan R target rotated 0 [] [] 0") auto
  from exactScan_fill [OF sc] have "syl1 \<le> target" "min target (monoCount R rotated) \<le> syl1"
    by simp_all
  moreover have "monoCount R rotated = monoCount R pool"
    by (simp add: rotated_def monoCount_rotate)
  ultimately have "syl1 = target" using assms by simp
  with sc have ps: "exactPasses R fillers target rotated 0 [] [] 0 t1 = (line1, used1, target, t1)"
    by (simp add: exactPasses_first)
  then have ps1: "exactPasses R fillers target (drop (randIndex r 3) pool @ take (randIndex r 3) pool)
       0 [] [] 0 t1 = (line1, used1, target, t1)"
    by (simp add: rotated_def)
  have ps2: "pool = [] \<Longrightarrow> exactPasses R fillers target [] 0 [] [] 0 t1 = (line1, used1, target, t1)"
    using ps by (simp add: rotated_def)
  show ?thesis
    using rd ps1 ps2
    by (cases "pool = []") (simp_all add: exactAttempts.simps [of _ _ _ _ 0] Let_def)
qed

lemma packExact_res:
  assumes "packExact R pool target topic t = (res, t')"
  shows "t \<le> t' \<and> t' \<le> t + 18 * 0x6D2B79F5
         \<and> (case res of None \<Rightarrow> True
             | Some ws \<Rightarrow> sylSum R ws = target
                 \<and> set ws \<subseteq> set pool \<union> set (f1 (TOPIC_FILLERS topic) @ f2 (TOPIC_FILLERS topic)))"
proof -
  obtain n where ea: "exactAttempts R pool (f1 (TOPIC_FILLERS topic) @ f2 (TOPIC_FILLERS topic)) target 0 t = (res, n, t')"
    using assms by (auto simp: packExact_def Let_def split: prod.splits)
  from exactAttempts_res [OF ea] have
    b: "n \<le> 6" "t \<le> t'" "t' \<le> t + 3 * 0x6D2B79F5 * int n"
    and r: "(case res of None \<Rightarrow> True
             | Some ws \<Rightarrow> sylSum R ws = target
                 \<and> set ws \<subseteq> set pool \<union> set (f1 (TOPIC_FILLERS topic) @ f2 (TOPIC_FILLERS topic)))"
    by simp_all
  from b have "t' \<le> t + 18 * 0x6D2B79F5" by simp
  with b r show ?thesis by simp
qed

lemma packExact_first:
  assumes "target \<le> monoCount R pool"
  shows "fst (packExact R pool target topic t) \<noteq> None"
proof -
  obtain res n t' where ea:
    "exactAttempts R pool (f1 (TOPIC_FILLERS topic) @ f2 (TOPIC_FILLERS topic)) target 0 t = (res, n, t')"
    by (cases "exactAttempts R pool (f1 (TOPIC_FILLERS topic) @ f2 (TOPIC_FILLERS topic)) target 0 t") auto
  with exactAttempts_first [OF assms, of "f1 (TOPIC_FILLERS topic) @ f2 (TOPIC_FILLERS topic)" t]
  show ?thesis by (simp add: packExact_def Let_def)
qed

lemma packLine_res:
  assumes "packLine R pool target topic t minWords = (res, t')"
  shows "t \<le> t' \<and> t' \<le> t + 11538 * 0x6D2B79F5
         \<and> (case res of None \<Rightarrow> True
             | Some ws \<Rightarrow> sylSum R ws = target \<and> set ws \<subseteq> lineWords pool topic)"
proof -
  obtain r1 t1 where pn: "packNatural R pool target topic t minWords = (r1, t1)"
    by (cases "packNatural R pool target topic t minWords") auto
  note n = packNatural_res [OF pn]
  show ?thesis
  proof (cases r1)
    case (Some ws)
    with pn assms have "res = Some ws" "t' = t1" by (simp_all add: packLine_def)
    with n Some show ?thesis by (auto simp: lineWords_def)
  next
    case None
    with pn assms have pe: "packExact R pool target topic t1 = (res, t')" by (simp add: packLine_def)
    from packExact_res [OF pe] n show ?thesis
      by (auto simp: lineWords_def split: option.splits)
  qed
qed

lemma packLine_first:
  assumes "target \<le> monoCount R pool"
  shows "fst (packLine R pool target topic t minWords) \<noteq> None"
proof -
  obtain r1 t1 where pn: "packNatural R pool target topic t minWords = (r1, t1)"
    by (cases "packNatural R pool target topic t minWords") auto
  show ?thesis
    using pn packExact_first [OF assms, of topic t1]
    by (cases r1) (simp_all add: packLine_def)
qed

section \<open>Lower case, the tables and the pool\<close>

lemma of_char_lowerChar:
  "(of_char (lowerChar c) :: nat) =
     (if (65 \<le> (of_char c :: nat) \<and> (of_char c :: nat) \<le> 90)
         \<or> (192 \<le> (of_char c :: nat) \<and> (of_char c :: nat) \<le> 222 \<and> (of_char c :: nat) \<noteq> 215)
      then of_char c + 32 else of_char c)"
proof -
  have "(of_char c :: nat) < 256" by simp
  then show ?thesis by (auto simp: lowerChar_def Let_def)
qed

lemma isSpace_lowerChar: "isSpace (lowerChar c) = isSpace c"
  unfolding isSpace_def Let_def of_char_lowerChar by auto

lemma lowerChar_idem: "lowerChar (lowerChar c) = lowerChar c"
proof -
  have "(of_char (lowerChar (lowerChar c)) :: nat) = of_char (lowerChar c)"
    unfolding of_char_lowerChar by auto
  then show ?thesis by simp
qed

lemma toLowerCase_idem: "toLowerCase (toLowerCase w) = toLowerCase w"
  by (simp add: toLowerCase_def lowerChar_idem)

lemma noSpace_toLowerCase: "noSpace (toLowerCase w) = noSpace w"
  by (simp add: noSpace_def toLowerCase_def list_all_iff isSpace_lowerChar)

lemma keepImagery_sub: "set (keepImagery toks tags) \<subseteq> toLowerCase ` set toks"
  by (induction toks tags rule: keepImagery.induct) (auto simp: Let_def)

lemma imageryWords_sub: "set (imageryWords R text) \<subseteq> toLowerCase ` set (rita_tokenize R text)"
  using keepImagery_sub by (simp add: imageryWords_def tokenizePOS_def Let_def)

lemma uniqueFilter_sub: "set (uniqueFilter seen xs) \<subseteq> set xs"
  by (induction xs arbitrary: seen) (auto simp: Let_def)

lemma uniqueFilter_nonempty: "xs \<noteq> [] \<Longrightarrow> uniqueFilter [] xs \<noteq> []"
  by (cases xs) (simp_all add: Let_def)

lemma uniqueFilter_keeps:
  "w \<in> set xs \<Longrightarrow> w \<notin> set seen \<Longrightarrow> list_all (\<lambda>x. toLowerCase x = x) xs \<Longrightarrow>
   w \<in> set (uniqueFilter seen xs)"
proof (induction xs arbitrary: seen)
  case Nil
  then show ?case by simp
next
  case (Cons a xs)
  from Cons.prems(3) have a: "toLowerCase a = a" and xs: "list_all (\<lambda>x. toLowerCase x = x) xs"
    by simp_all
  show ?case
  proof (cases "a \<in> set seen")
    case True
    with Cons.prems(1,2) have "w \<in> set xs" by auto
    from Cons.IH [OF this Cons.prems(2) xs] True a show ?thesis by (simp add: Let_def)
  next
    case False
    show ?thesis
    proof (cases "w = a")
      case True
      with False a show ?thesis by (simp add: Let_def)
    next
      case ne: False
      with Cons.prems(1,2) have "w \<in> set xs" "w \<notin> set (a # seen)" by auto
      from Cons.IH [OF this xs] False a show ?thesis by (simp add: Let_def)
    qed
  qed
qed

lemma topic_in_keys: "k \<in> set topicKeys"
  by (cases k) (simp_all add: topicKeys_def)

lemma tables_noSpace:
  "list_all (\<lambda>k. list_all noSpace (nouns (TOPIC_FILLERS k))
        \<and> list_all noSpace (f1 (TOPIC_FILLERS k)) \<and> list_all noSpace (f2 (TOPIC_FILLERS k))
        \<and> list_all (\<lambda>ph. list_all noSpace (splitOn CHR '' '' ph))
             (case kigo (TOPIC_FILLERS k) of None \<Rightarrow> [] | Some kg \<Rightarrow> kg)) topicKeys"
  by (simp add: topicKeys_def noSpace_def isSpace_def splitOn_def TOPIC_FILLERS.simps)

lemma glue_noSpace: "list_all noSpace GLUE_WORDS"
  by (simp add: GLUE_WORDS_def noSpace_def isSpace_def)

lemma tables_lower:
  "list_all (\<lambda>k. list_all (\<lambda>w. toLowerCase w = w) (nouns (TOPIC_FILLERS k))
       \<and> distinct (nouns (TOPIC_FILLERS k)) \<and> nouns (TOPIC_FILLERS k) \<noteq> []) topicKeys"
  by (simp add: topicKeys_def toLowerCase_def lowerChar_def TOPIC_FILLERS.simps)


lemma kigoTokens_res:
  assumes "kigoTokens topic t = (kt, t')"
  shows "t \<le> t' \<and> t' \<le> t + 2 * 0x6D2B79F5
         \<and> (kt = [] \<or> (\<exists>ph \<in> set (case kigo (TOPIC_FILLERS topic) of None \<Rightarrow> [] | Some kg \<Rightarrow> kg).
                kt = splitOn CHR '' '' ph))"
proof -
  let ?kg = "case kigo (TOPIC_FILLERS topic) of None \<Rightarrow> [] | Some kg \<Rightarrow> kg"
  show ?thesis
  proof (cases "?kg = []")
    case True
    with assms show ?thesis by (simp add: kigoTokens_def Let_def)
  next
    case False
    obtain r t1 where rd: "rand t = (r, t1)" by (cases "rand t") auto
    then have t1: "t1 = t + 0x6D2B79F5" using snd_rand [of t] by simp
    show ?thesis
    proof (cases "belowHalf r")
      case b: False
      with False rd assms t1 show ?thesis by (simp add: kigoTokens_def Let_def)
    next
      case b: True
      obtain ph t2 where pk: "pick t1 ?kg (hd ?kg) = (ph, t2)" by (cases "pick t1 ?kg (hd ?kg)") auto
      from pick_memE [OF pk False] pick_genE [OF pk False] have "ph \<in> set ?kg" "t2 = t1 + 0x6D2B79F5"
        by simp_all
      moreover from False rd b pk assms have "kt = splitOn CHR '' '' ph" "t' = t2"
        by (simp_all add: kigoTokens_def Let_def)
      ultimately show ?thesis using t1 by auto
    qed
  qed
qed

lemma poolOf_noSpace:
  assumes "list_all noSpace (rita_tokenize R text)"
  shows "list_all noSpace (poolOf R text topic)"
proof -
  have "noSpace w" if "w \<in> set (imageryWords R text)" for w
  proof -
    from that imageryWords_sub obtain tok where "tok \<in> set (rita_tokenize R text)" "w = toLowerCase tok"
      by blast
    with assms show ?thesis by (simp add: noSpace_toLowerCase list_all_iff)
  qed
  moreover have "list_all noSpace (nouns (TOPIC_FILLERS topic))"
    using tables_noSpace topic_in_keys [of topic] by (simp add: list_all_iff)
  ultimately show ?thesis by (auto simp: poolOf_def list_all_iff)
qed

lemma workingPool_noSpace:
  assumes "list_all noSpace (rita_tokenize R text)"
  shows "list_all noSpace (fst (workingPool R text seed))"
proof -
  let ?t0 = "mulberry32 (if seed = 0 then 1 else seed)"
  obtain kt t1 where kg: "kigoTokens (topicOf text) ?t0 = (kt, t1)"
    by (cases "kigoTokens (topicOf text) ?t0") auto
  have "list_all noSpace kt"
  proof -
    from kigoTokens_res [OF kg] consider "kt = []"
      | ph where "ph \<in> set (case kigo (TOPIC_FILLERS (topicOf text)) of None \<Rightarrow> [] | Some kg \<Rightarrow> kg)"
          "kt = splitOn CHR '' '' ph" by auto
    then show ?thesis
    proof cases
      case 1
      then show ?thesis by simp
    next
      case 2
      with tables_noSpace topic_in_keys [of "topicOf text"] show ?thesis by (simp add: list_all_iff)
    qed
  qed
  moreover have "list_all noSpace (uniquePool R text (topicOf text))"
    using poolOf_noSpace [OF assms, of "topicOf text"] uniqueFilter_sub [of "[]" "poolOf R text (topicOf text)"]
    by (auto simp: uniquePool_def list_all_iff)
  ultimately show ?thesis using kg by (simp add: workingPool_def Let_def)
qed

lemma lineWords_noSpace:
  assumes "list_all noSpace pool" and "w \<in> lineWords pool topic"
  shows "noSpace w"
  using assms tables_noSpace topic_in_keys [of topic] glue_noSpace
  by (auto simp: lineWords_def list_all_iff)

lemma workingPool_gen:
  "0 \<le> snd (workingPool R text seed) \<and> snd (workingPool R text seed) < 4294967296 + 2 * 0x6D2B79F5"
proof -
  let ?t0 = "mulberry32 (if seed = 0 then 1 else seed)"
  obtain kt t1 where kg: "kigoTokens (topicOf text) ?t0 = (kt, t1)"
    by (cases "kigoTokens (topicOf text) ?t0") auto
  have "0 \<le> ?t0" "?t0 < 4294967296" by (simp_all add: mulberry32_def)
  with kigoTokens_res [OF kg] kg show ?thesis by (simp add: workingPool_def Let_def)
qed

lemma composeLines_res:
  assumes "composeLines R text seed = ((L1, L2, L3), t4)"
  shows "(case L1 of None \<Rightarrow> True | Some ws \<Rightarrow> sylSum R ws = 5 \<and> set ws \<subseteq> lineWords (fst (workingPool R text seed)) (topicOf text))
       \<and> (case L2 of None \<Rightarrow> True | Some ws \<Rightarrow> sylSum R ws = 7 \<and> set ws \<subseteq> lineWords (fst (workingPool R text seed)) (topicOf text))
       \<and> (case L3 of None \<Rightarrow> True | Some ws \<Rightarrow> sylSum R ws = 5 \<and> set ws \<subseteq> lineWords (fst (workingPool R text seed)) (topicOf text))
       \<and> 0 \<le> t4 \<and> t4 < 4294967296 + 34616 * 0x6D2B79F5"
proof -
  obtain pool t1 where wp: "workingPool R text seed = (pool, t1)" by (cases "workingPool R text seed") auto
  obtain l1 t2 where p1: "packLine R pool 5 (topicOf text) t1 3 = (l1, t2)"
    by (cases "packLine R pool 5 (topicOf text) t1 3") auto
  obtain l2 t3 where p2: "packLine R pool 7 (topicOf text) t2 4 = (l2, t3)"
    by (cases "packLine R pool 7 (topicOf text) t2 4") auto
  obtain l3 t4' where p3: "packLine R pool 5 (topicOf text) t3 3 = (l3, t4')"
    by (cases "packLine R pool 5 (topicOf text) t3 3") auto
  from assms wp p1 p2 p3 have eq: "L1 = l1" "L2 = l2" "L3 = l3" "t4 = t4'"
    by (simp_all add: composeLines_def Let_def)
  from workingPool_gen [of R "text" seed] wp have g1: "0 \<le> t1" "t1 < 4294967296 + 2 * 0x6D2B79F5" by simp_all
  note r1 = packLine_res [OF p1]
  note r2 = packLine_res [OF p2]
  note r3 = packLine_res [OF p3]
  from r1 r2 r3 g1 have "0 \<le> t4'" "t4' < 4294967296 + 34616 * 0x6D2B79F5" by simp_all
  with r1 r2 r3 eq wp show ?thesis by (auto split: option.splits)
qed

section \<open>The composer\<close>



lemma ceil06_real: "int (ceil06 n) = \<lceil>real n * 0.6\<rceil>"
proof -
  have "real n * 0.6 = real_of_int (3 * int n) / real_of_int 5" by simp
  then have "\<lceil>real n * 0.6\<rceil> = \<lceil>real_of_int (3 * int n) / real_of_int 5\<rceil>" by (rule arg_cong)
  also have "\<dots> = - (- (3 * int n) div 5)" by (rule ceiling_divide_eq_div)
  also have "\<dots> = (3 * int n + 4) div 5" by linarith
  also have "\<dots> = int ((3 * n + 4) div 5)" by (simp add: zdiv_int)
  finally show ?thesis by (simp add: ceil06_def)
qed

lemma ceilHalf_real: "int (ceilHalf n) = \<lceil>real n * 0.5\<rceil>"
proof -
  have "real n * 0.5 = real_of_int (int n) / real_of_int 2" by simp
  then have "\<lceil>real n * 0.5\<rceil> = \<lceil>real_of_int (int n) / real_of_int 2\<rceil>" by (rule arg_cong)
  also have "\<dots> = - (- (int n) div 2)" by (rule ceiling_divide_eq_div)
  also have "\<dots> = (int n + 1) div 2" by linarith
  also have "\<dots> = int ((n + 1) div 2)" by (simp add: zdiv_int)
  finally show ?thesis by (simp add: ceilHalf_def)
qed

lemma filter_length_mono:
  assumes "distinct xs" "set xs \<subseteq> set ys"
  shows "length (filter P xs) \<le> length (filter P ys)"
proof -
  have "distinct (filter P xs)" using assms(1) by simp
  then have "length (filter P xs) = card (set (filter P xs))"
    by (rule distinct_card [symmetric])
  also have "\<dots> \<le> card (set (filter P ys))"
    using assms(2) by (intro card_mono) auto
  also have "\<dots> \<le> length (filter P ys)" by (rule card_length)
  finally show ?thesis .
qed

lemma imageryWords_lower: "list_all (\<lambda>w. toLowerCase w = w) (imageryWords R text)"
  using imageryWords_sub [of R "text"] by (auto simp: list_all_iff toLowerCase_idem)

lemma nouns_in_uniquePool: "set (nouns (TOPIC_FILLERS topic)) \<subseteq> set (uniquePool R text topic)"
proof
  fix w assume w: "w \<in> set (nouns (TOPIC_FILLERS topic))"
  have low: "list_all (\<lambda>w. toLowerCase w = w) (nouns (TOPIC_FILLERS topic))"
    using tables_lower topic_in_keys [of topic] by (simp add: list_all_iff)
  have "list_all (\<lambda>w. toLowerCase w = w) (poolOf R text topic)"
    using low imageryWords_lower [of R "text"] by (auto simp: poolOf_def list_all_iff)
  moreover have "w \<in> set (poolOf R text topic)" using w by (simp add: poolOf_def)
  ultimately show "w \<in> set (uniquePool R text topic)"
    unfolding uniquePool_def by (intro uniqueFilter_keeps) simp_all
qed

lemma monoCount_workingPool:
  "monoCount R (nouns (TOPIC_FILLERS (topicOf text))) \<le> monoCount R (fst (workingPool R text seed))"
proof -
  have d: "distinct (nouns (TOPIC_FILLERS (topicOf text)))"
    using tables_lower topic_in_keys [of "topicOf text"] by (simp add: list_all_iff)
  have "monoCount R (nouns (TOPIC_FILLERS (topicOf text))) \<le> monoCount R (uniquePool R text (topicOf text))"
    unfolding monoCount_def by (rule filter_length_mono [OF d nouns_in_uniquePool])
  also have "\<dots> \<le> monoCount R (fst (workingPool R text seed))"
    by (simp add: workingPool_def Let_def monoCount_def split: prod.splits)
  finally show ?thesis .
qed

lemma composeLines_first:
  assumes "7 \<le> monoCount R (fst (workingPool R text seed))"
  shows "\<exists>l1 l2 l3. fst (composeLines R text seed) = (Some l1, Some l2, Some l3)"
proof -
  obtain pool t1 where wp: "workingPool R text seed = (pool, t1)" by (cases "workingPool R text seed") auto
  obtain l1 t2 where p1: "packLine R pool 5 (topicOf text) t1 3 = (l1, t2)"
    by (cases "packLine R pool 5 (topicOf text) t1 3") auto
  obtain l2 t3 where p2: "packLine R pool 7 (topicOf text) t2 4 = (l2, t3)"
    by (cases "packLine R pool 7 (topicOf text) t2 4") auto
  obtain l3 t4 where p3: "packLine R pool 5 (topicOf text) t3 3 = (l3, t4)"
    by (cases "packLine R pool 5 (topicOf text) t3 3") auto
  from assms wp have m: "5 \<le> monoCount R pool" "7 \<le> monoCount R pool" by simp_all
  from packLine_first [OF m(1), of "topicOf text" t1 3] p1 have "l1 \<noteq> None" by simp
  moreover from packLine_first [OF m(2), of "topicOf text" t2 4] p2 have "l2 \<noteq> None" by simp
  moreover from packLine_first [OF m(1), of "topicOf text" t3 3] p3 have "l3 \<noteq> None" by simp
  ultimately show ?thesis using wp p1 p2 p3 by (auto simp: composeLines_def Let_def)
qed

lemma primary_lines:
  assumes "list_all noSpace (rita_tokenize R text)"
    and "fst (composeLines R text seed) = (Some L1, Some L2, Some L3)"
  shows "sylSum R L1 = 5 \<and> sylSum R L2 = 7 \<and> sylSum R L3 = 5
     \<and> list_all noSpace L1 \<and> list_all noSpace L2 \<and> list_all noSpace L3
     \<and> set (L1 @ L2 @ L3) \<subseteq> lineWords (fst (workingPool R text seed)) (topicOf text)"
proof -
  obtain t4 where cl: "composeLines R text seed = ((Some L1, Some L2, Some L3), t4)"
    using assms(2) by (cases "composeLines R text seed") auto
  note r = composeLines_res [OF cl]
  have ns: "noSpace w" if "w \<in> lineWords (fst (workingPool R text seed)) (topicOf text)" for w
    using lineWords_noSpace [OF workingPool_noSpace [OF assms(1)] that] .
  from r ns show ?thesis by (auto simp: list_all_iff)
qed

section \<open>Exactness on the primary path\<close>

text \<open>Claim C1. When the three lines of \<open>composeHaikuRiTa\<close> all come from
  \<open>packNatural\<close> or \<open>packExact\<close>, so that the loose fallback is not used, \<open>count575\<close>
  of the returned haiku is \<open>[5, 7, 5]\<close>. The tokenizer is a parameter of the model; its
  tokens are taken to contain no white space.\<close>

theorem count575_primary_path:
  assumes "list_all noSpace (rita_tokenize R text)"
    and "fst (composeLines R text seed) = (Some L1, Some L2, Some L3)"
  shows "count575 R (composeHaikuRiTa R text seed) = [5, 7, 5]"
proof -
  from primary_lines [OF assms] have
    s: "sylSum R L1 = 5" "sylSum R L2 = 7" "sylSum R L3 = 5"
    and n: "list_all noSpace L1" "list_all noSpace L2" "list_all noSpace L3" by simp_all
  have "composeHaikuRiTa R text seed = join [CHR 0x0A] [join '' '' L1, join '' '' L2, join '' '' L3]"
    using assms(2) by (simp add: composeHaikuRiTa_def)
  with count575_join [OF n, of R] s show ?thesis by simp
qed

section \<open>Naturalness of a natural line\<close>

text \<open>Claim C5. A line returned by \<open>packNatural\<close> has at least \<open>minWords\<close> words, at
  least \<open>ceil(minWords * 0.6)\<close> words outside the glue set and at most
  \<open>ceil(wordCount * 0.5)\<close> words inside it.\<close>

theorem packNatural_naturalness:
  assumes "fst (packNatural R pool target topic t minWords) = Some ws"
  shows "minWords \<le> length ws
       \<and> \<lceil>real minWords * 0.6\<rceil> \<le> int (length (filter (\<lambda>w. \<not> isGlue w) ws))
       \<and> int (length (filter isGlue ws)) \<le> \<lceil>real (length ws) * 0.5\<rceil>"
proof -
  obtain t' where pn: "packNatural R pool target topic t minWords = (Some ws, t')"
    using assms by (cases "packNatural R pool target topic t minWords") auto
  from packNatural_res [OF pn] have nat: "natural minWords ws" by simp
  have "length (filter isGlue ws) = length ws - length (filter (\<lambda>w. \<not> isGlue w) ws)"
    using sum_length_filter_compl [of isGlue ws] by simp
  moreover from nat have "minWords \<le> length ws"
    and "ceil06 minWords \<le> length (filter (\<lambda>w. \<not> isGlue w) ws)"
    and "length ws - length (filter (\<lambda>w. \<not> isGlue w) ws) \<le> ceilHalf (length ws)"
    by (simp_all add: natural_def)
  ultimately have "minWords \<le> length ws"
    and "int (ceil06 minWords) \<le> int (length (filter (\<lambda>w. \<not> isGlue w) ws))"
    and "int (length (filter isGlue ws)) \<le> int (ceilHalf (length ws))"
    by linarith+
  then show ?thesis by (simp only: ceil06_real ceilHalf_real)
qed

section \<open>The pool is never empty\<close>

text \<open>Claim C8. Every topic has a non-empty noun list, the nouns of the resolved topic are
  appended to the imagery words, and so the pool, the deduplicated pool and the working
  pool of \<open>composeHaikuRiTa\<close> are non-empty for every text and seed.\<close>

theorem pool_nonempty:
  "nouns (TOPIC_FILLERS topic) \<noteq> [] \<and> poolOf R text (topicOf text) \<noteq> []
   \<and> uniquePool R text (topicOf text) \<noteq> [] \<and> fst (workingPool R text seed) \<noteq> []"
proof -
  have n: "nouns (TOPIC_FILLERS k) \<noteq> []" for k
    using tables_lower topic_in_keys [of k] by (simp add: list_all_iff)
  then have p: "poolOf R text (topicOf text) \<noteq> []" by (simp add: poolOf_def)
  then have u: "uniquePool R text (topicOf text) \<noteq> []"
    by (simp add: uniquePool_def uniqueFilter_nonempty)
  then have "fst (workingPool R text seed) \<noteq> []"
    by (simp add: workingPool_def Let_def split: prod.splits)
  with n p u show ?thesis by simp
qed

section \<open>Seeds\<close>

text \<open>Claim C10. Seed 0 is replaced by 1 before the generator is created, so the seeds 0 and
  1 give the same haiku.\<close>

theorem seed_zero_is_seed_one: "composeHaikuRiTa R text 0 = composeHaikuRiTa R text 1"
proof -
  have "workingPool R text 0 = workingPool R text 1" by (simp add: workingPool_def)
  then have "composeLines R text 0 = composeLines R text 1" by (simp only: composeLines_def)
  then show ?thesis by (simp only: composeHaikuRiTa_def)
qed

section \<open>No banned word for the beach topic\<close>


section \<open>The topic classifier\<close>

lemma includes_str_iff: "includes_str t kw \<longleftrightarrow> (\<exists>ps ss. t = ps @ kw @ ss)"
proof (induction t)
  case Nil
  then show ?case by auto
next
  case (Cons c cs)
  have sw: "startsWith (c # cs) kw \<longleftrightarrow> (\<exists>ss. c # cs = kw @ ss)"
    unfolding startsWith_def by (metis append_eq_conv_conj append_take_drop_id)
  show ?case
  proof
    assume "includes_str (c # cs) kw"
    then consider "startsWith (c # cs) kw" | "includes_str cs kw" by auto
    then show "\<exists>ps ss. c # cs = ps @ kw @ ss"
    proof cases
      case 1
      with sw obtain ss where "c # cs = [] @ kw @ ss" by auto
      then show ?thesis by blast
    next
      case 2
      with Cons.IH obtain ps ss where "cs = ps @ kw @ ss" by auto
      then have "c # cs = (c # ps) @ kw @ ss" by simp
      then show ?thesis by blast
    qed
  next
    assume "\<exists>ps ss. c # cs = ps @ kw @ ss"
    then obtain ps ss where e: "c # cs = ps @ kw @ ss" by auto
    show "includes_str (c # cs) kw"
    proof (cases ps)
      case Nil
      with e have "c # cs = kw @ ss" by simp
      with sw have "startsWith (c # cs) kw" by blast
      then show ?thesis by simp
    next
      case (Cons p ps')
      with e have "cs = ps' @ kw @ ss" by simp
      with Cons.IH show ?thesis by auto
    qed
  qed
qed

lemma topicScore_spec: "topicScore lower k = specScore lower k"
proof -
  have "foldl (\<lambda>s kw. s + keywordScore lower kw) a kws = a + sum_list (map (keywordScore lower) kws)"
    for a kws by (induction kws arbitrary: a) auto
  then show ?thesis by (simp add: topicScore_def specScore_def keywordScore_def [abs_def])
qed

lemma hd_sort_key:
  assumes "xs \<noteq> []"
  shows "hd (sort_key f xs) \<in> set xs \<and> (\<forall>y \<in> set xs. f (hd (sort_key f xs)) \<le> f y)
         \<and> hd (sort_key f xs) = hd (filter (\<lambda>y. f y = f (hd (sort_key f xs))) xs)"
proof -
  define ys where "ys = sort_key f xs"
  have ne: "ys \<noteq> []" using assms by (metis length_0_conv length_sort ys_def)
  then obtain h t where ys: "ys = h # t" by (cases ys) auto
  have "sorted (map f ys)" by (simp add: ys_def)
  with ys have min: "\<forall>y \<in> set ys. f h \<le> f y" by auto
  have set: "set ys = set xs" by (simp add: ys_def)
  have "filter (\<lambda>y. f y = f h) xs = filter (\<lambda>y. f y = f h) ys"
    unfolding ys_def by (rule sort_key_stable [symmetric])
  also have "\<dots> = h # filter (\<lambda>y. f y = f h) t" by (simp add: ys)
  finally have "hd (filter (\<lambda>y. f y = f h) xs) = h" by simp
  with min set ys show ?thesis unfolding ys_def [symmetric] by auto
qed

lemma foldr_max_le: "(\<forall>k \<in> set ks. g k \<le> (b::nat)) \<Longrightarrow> foldr max (map g ks) 0 \<le> b"
  by (induction ks) auto

lemma foldr_max_ge: "k \<in> set ks \<Longrightarrow> g k \<le> foldr max (map g ks) (0::nat)"
  by (induction ks) auto

lemma foldr_max_eq:
  "k0 \<in> set ks \<Longrightarrow> \<forall>k \<in> set ks. g k \<le> g k0 \<Longrightarrow> foldr max (map g ks) (0::nat) = g k0"
  using foldr_max_le [of ks g "g k0"] foldr_max_ge [of k0 ks g] by simp

text \<open>Claim C6. \<open>scoreTopic\<close> returns the topic the specification describes: scores of
  +2 for an exact lower-cased token match and +1 for a token containing the keyword,
  summed over the keywords of the topic; the highest score wins, the first declared topic
  among equal scores, and \<open>generic\<close> when the best score is 0.\<close>

theorem scoreTopic_refines_spec: "scoreTopic tokens = classifyTopic_spec tokens"
proof -
  define lower where "lower = map toLowerCase tokens"
  define sc where "sc = specScore lower"
  define xs where "xs = map (\<lambda>k. (k, sc k)) topicKeys"
  define best where "best = hd (sortByScore xs)"
  have xs_ne: "xs \<noteq> []" by (simp add: xs_def topicKeys_def)
  from hd_sort_key [OF xs_ne, of "\<lambda>e. - int (snd e)"] have
    mem: "best \<in> set xs" and
    max: "\<forall>e \<in> set xs. snd e \<le> snd best" and
    first: "best = hd (filter (\<lambda>e. snd e = snd best) xs)"
    by (simp_all add: best_def sortByScore_def)
  from mem have sb: "snd best = sc (fst best)" and fb: "fst best \<in> set topicKeys"
    by (auto simp: xs_def)
  from max have "\<forall>k \<in> set topicKeys. sc k \<le> sc (fst best)" by (auto simp: xs_def sb)
  from foldr_max_eq [OF fb this] have m: "foldr max (map sc topicKeys) 0 = snd best" by (simp add: sb)
  have srt: "sortByScore xs \<noteq> []"
    using xs_ne by (metis length_0_conv length_sort sortByScore_def)
  have code: "scoreTopic tokens = (if snd best > 0 then fst best else Generic)"
    using srt by (cases "sortByScore xs")
      (simp_all add: scoreTopic_def Let_def topicScore_spec lower_def sc_def xs_def best_def)
  have "filter (\<lambda>e. snd e = snd best) xs = map (\<lambda>k. (k, sc k)) (filter (\<lambda>k. sc k = snd best) topicKeys)"
    by (simp add: xs_def filter_map comp_def)
  moreover have "filter (\<lambda>k. sc k = snd best) topicKeys \<noteq> []"
    using fb sb by (auto simp: filter_empty_conv)
  ultimately have "hd (filter (\<lambda>e. snd e = snd best) xs)
       = (hd (filter (\<lambda>k. sc k = snd best) topicKeys), sc (hd (filter (\<lambda>k. sc k = snd best) topicKeys)))"
    by (simp add: hd_map)
  then have "fst best = hd (filter (\<lambda>k. sc k = snd best) topicKeys)"
    by (metis first fst_conv)
  with code m show ?thesis
    by (simp add: classifyTopic_spec_def Let_def lower_def [symmetric] sc_def [symmetric])
qed

section \<open>Bounded loops\<close>

lemma exactScan_length:
  "length (fst (exactScan R target ws i line used syl)) \<le> length line + length ws"
proof (induction ws arbitrary: i line used syl)
  case Nil
  then show ?case by simp
next
  case (Cons w ws)
  have a: "length (fst (exactScan R target ws (Suc i) line used syl)) \<le> length line + length ws"
    by (rule Cons.IH)
  have b: "length (fst (exactScan R target ws (Suc i) (line @ [w]) (i # used) (syl + syllablesInWord R w)))
      \<le> length (line @ [w]) + length ws"
    by (rule Cons.IH)
  from a b show ?case by (auto simp: Let_def)
qed

lemma looseLine_length: "length (looseLine R n ws out syl) \<le> length out + length ws"
proof (induction ws arbitrary: out syl)
  case Nil
  then show ?case by simp
next
  case (Cons w ws)
  have a: "length (looseLine R n ws out syl) \<le> length out + length ws" by (rule Cons.IH)
  have b: "length (looseLine R n ws (out @ [w]) (syl + syllablesInWord R w)) \<le> length (out @ [w]) + length ws"
    by (rule Cons.IH)
  from a b show ?case by (auto simp: Let_def)
qed

text \<open>Claim C9. Every loop of the composer is bounded, and every function of the model is
  total: the growth loop of \<open>packNatural\<close> runs its body at most 160 times in an attempt,
  \<open>packNatural\<close> makes at most 36 attempts and \<open>packExact\<close> at most 6, a scan of
  \<open>packExact\<close> and a line of the loose fallback are one pass over their list, and the whole
  composition makes at most 34616 draws, so that the state of the generator stays a
  non-negative integer below \<open>2^53\<close>.\<close>

theorem composeHaiku_bounded:
  "fst (growLoop R imagerySorted glueSorted target 0 [] 0 t) \<le> 160
   \<and> fst (snd (naturalAttempts R imagerySorted glueSorted target minWords 0 t)) \<le> 36
   \<and> fst (snd (exactAttempts R pool fillers target 0 t)) \<le> 6
   \<and> length (fst (exactScan R target pool 0 line used syl)) \<le> length line + length pool
   \<and> length (looseLine R n ws [] 0) \<le> length ws
   \<and> 0 \<le> snd (composeLines R text seed)
   \<and> snd (composeLines R text seed) \<le> 4294967295 + 34616 * 0x6D2B79F5
   \<and> snd (composeLines R text seed) < 2 ^ 53"
proof -
  obtain g w s u where gl: "growLoop R imagerySorted glueSorted target 0 [] 0 t = (g, w, s, u)"
    by (cases "growLoop R imagerySorted glueSorted target 0 [] 0 t") auto
  from growLoop_count [OF gl] have 1: "fst (growLoop R imagerySorted glueSorted target 0 [] 0 t) \<le> 160"
    using gl by simp
  obtain res a u' where na: "naturalAttempts R imagerySorted glueSorted target minWords 0 t = (res, a, u')"
    by (cases "naturalAttempts R imagerySorted glueSorted target minWords 0 t") auto
  from naturalAttempts_res [OF na] have
    2: "fst (snd (naturalAttempts R imagerySorted glueSorted target minWords 0 t)) \<le> 36"
    using na by simp
  obtain res' a' u'' where ea: "exactAttempts R pool fillers target 0 t = (res', a', u'')"
    by (cases "exactAttempts R pool fillers target 0 t") auto
  from exactAttempts_res [OF ea] have 3: "fst (snd (exactAttempts R pool fillers target 0 t)) \<le> 6"
    using ea by simp
  have 4: "length (looseLine R n ws [] 0) \<le> length ws"
    using looseLine_length [of R n ws "[]" 0] by simp
  obtain L1 L2 L3 t4 where cl: "composeLines R text seed = ((L1, L2, L3), t4)"
    by (cases "composeLines R text seed") auto
  from composeLines_res [OF cl] have "0 \<le> t4" "t4 < 4294967296 + 34616 * 0x6D2B79F5" by simp_all
  with cl have 5: "0 \<le> snd (composeLines R text seed)"
    "snd (composeLines R text seed) \<le> 4294967295 + 34616 * 0x6D2B79F5"
    "snd (composeLines R text seed) < 2 ^ 53" by simp_all
  from 1 2 3 4 5 exactScan_length [of R target pool 0 line used syl] show ?thesis by simp
qed

section \<open>Adjacent glue words\<close>

lemma noGlueGlue_snoc:
  "noGlueGlue (ws @ [w]) = (noGlueGlue ws \<and> (ws = [] \<or> \<not> (isGlue (last ws) \<and> isGlue w)))"
  by (induction ws rule: noGlueGlue.induct) auto

lemma glue_pair_count: "\<not> noGlueGlue ws \<Longrightarrow> 2 \<le> length (filter isGlue ws)"
  by (induction ws rule: noGlueGlue.induct) auto

lemma isGlue_GLUE_WORDS: "w \<in> set GLUE_WORDS \<Longrightarrow> isGlue w"
  by (simp add: isGlue_def GLUE_SET_def)

lemma sylSum_lower_bound:
  assumes "\<forall>w \<in> set ws. (isGlue w \<longrightarrow> 1 \<le> syllablesInWord R w) \<and> (\<not> isGlue w \<longrightarrow> 2 \<le> syllablesInWord R w)"
  shows "2 * length (filter (\<lambda>w. \<not> isGlue w) ws) + length (filter isGlue ws) \<le> sylSum R ws"
  using assms by (induction ws) (auto simp: sylSum_def)

lemma growStep_outcome:
  assumes "growStep R imagerySorted glueSorted target words syl t = (brk, words', syl', t')"
  shows "words' = words
     \<or> (\<exists>w. words' = words @ [w] \<and> w \<in> set imagerySorted \<and> 0 < syllablesInWord R w)
     \<or> (\<exists>w. words' = words @ [w] \<and> w \<in> set glueSorted \<and> 0 < syllablesInWord R w
            \<and> words \<noteq> [] \<and> \<not> isGlue (last words))
     \<or> (\<exists>w. words' = words @ [w] \<and> w \<in> set glueSorted
            \<and> (\<forall>v \<in> set imagerySorted. \<not> (0 < syllablesInWord R v \<and> syl + syllablesInWord R v \<le> target)))
     \<or> (\<exists>w. words' = words @ [w] \<and> w \<in> set imagerySorted
            \<and> (\<forall>v \<in> set glueSorted. \<not> (0 < syllablesInWord R v \<and> syl + syllablesInWord R v \<le> target)))"
proof -
  obtain addGlue t1 where pg: "preferGlue words t = (addGlue, t1)" by (cases "preferGlue words t") auto
  have ag: "addGlue \<Longrightarrow> words \<noteq> []" using pg by (auto simp: preferGlue_def split: if_splits)
  let ?source = "if addGlue then glueSorted else imagerySorted"
  let ?other = "if \<not> addGlue then glueSorted else imagerySorted"
  let ?fits = "filter (\<lambda>w. syllablesInWord R w > 0 \<and> syl + syllablesInWord R w \<le> target) ?source"
  let ?alt = "filter (\<lambda>w. syl + syllablesInWord R w \<le> target) ?other"
  let ?short = "filter (\<lambda>w. syllablesInWord R w = 1) ?fits"
  let ?two = "filter (\<lambda>w. syllablesInWord R w = 2) ?fits"
  let ?pickPool = "if ?short \<noteq> [] then ?short else if ?two \<noteq> [] then ?two else ?fits"
  show ?thesis
  proof (cases "addGlue \<and> words \<noteq> [] \<and> isGlue (last words)")
    case True
    with assms pg have "words' = words" by (simp add: growStep_def)
    then show ?thesis by simp
  next
    case nc: False
    show ?thesis
    proof (cases "?fits = []")
      case False
      then have pp: "?pickPool \<noteq> []" by presburger
      have ps: "set ?pickPool \<subseteq> set ?fits" by auto
      obtain w t2 where pk: "pick t1 ?pickPool (hd ?pickPool) = (w, t2)"
        by (cases "pick t1 ?pickPool (hd ?pickPool)") auto
      from pick_memE [OF pk pp] ps have wf: "w \<in> set ?fits" by blast
      then have ws: "w \<in> set ?source" and pos: "0 < syllablesInWord R w" by auto
      have "growStep R imagerySorted glueSorted target words syl t
          = (False, words @ [w], syl + syllablesInWord R w, t2)"
        unfolding growStep_def Let_def pg using nc False pk by simp
      with assms have w': "words' = words @ [w]" by simp
      show ?thesis
      proof (cases addGlue)
        case True
        with nc ag ws w' pos show ?thesis by auto
      next
        case False
        with ws w' pos show ?thesis by auto
      qed
    next
      case True
      show ?thesis
      proof (cases "?alt = []")
        case e: True
        have "growStep R imagerySorted glueSorted target words syl t = (True, words, syl, t1)"
          unfolding growStep_def Let_def pg using nc True e by simp
        with assms show ?thesis by simp
      next
        case ne: False
        obtain w t2 where pk: "pick t1 ?alt (hd ?alt) = (w, t2)" by (cases "pick t1 ?alt (hd ?alt)") auto
        from pick_memE [OF pk ne] have wo: "w \<in> set ?other" by auto
        have "growStep R imagerySorted glueSorted target words syl t
            = (False, words @ [w], syl + syllablesInWord R w, t2)"
          unfolding growStep_def Let_def pg using nc True ne pk by simp
        with assms have w': "words' = words @ [w]" by simp
        from True have "\<forall>v \<in> set ?source. \<not> (0 < syllablesInWord R v \<and> syl + syllablesInWord R v \<le> target)"
          by (simp add: filter_empty_conv)
        with wo w' show ?thesis by (cases addGlue) auto
      qed
    qed
  qed
qed

lemma growStep_glueInv:
  assumes st: "growStep R imagerySorted glueSorted target words syl t = (brk, words', syl', t')"
    and inv: "glueInv R imagerySorted glueSorted words"
    and lt: "syl < target"
    and h1: "list_all (\<lambda>w. \<not> isGlue w) imagerySorted"
    and h2: "list_all (\<lambda>w. 0 < syllablesInWord R w) glueSorted"
    and h3: "list_ex (\<lambda>w. syllablesInWord R w = 1) glueSorted"
  shows "glueInv R imagerySorted glueSorted words'"
proof -
  from growStep_outcome [OF st] consider
      (same) "words' = words"
    | (imagery) w where "words' = words @ [w]" "w \<in> set imagerySorted" "0 < syllablesInWord R w"
    | (glue) w where "words' = words @ [w]" "w \<in> set glueSorted" "0 < syllablesInWord R w"
        "words \<noteq> []" "\<not> isGlue (last words)"
    | (altGlue) w where "words' = words @ [w]" "w \<in> set glueSorted"
        "\<forall>v \<in> set imagerySorted. \<not> (0 < syllablesInWord R v \<and> syl + syllablesInWord R v \<le> target)"
    | (altImagery) w where "words' = words @ [w]" "w \<in> set imagerySorted"
        "\<forall>v \<in> set glueSorted. \<not> (0 < syllablesInWord R v \<and> syl + syllablesInWord R v \<le> target)"
    by blast
  then show ?thesis
  proof cases
    case same
    with inv show ?thesis by simp
  next
    case imagery
    with h1 have "\<not> isGlue w" by (simp add: list_all_iff)
    then have "noGlueGlue (words @ [w]) = noGlueGlue words" by (auto simp: noGlueGlue_snoc)
    with inv imagery show ?thesis by (auto simp: glueInv_def)
  next
    case glue
    then have "noGlueGlue (words @ [w]) = noGlueGlue words" by (auto simp: noGlueGlue_snoc)
    with inv glue show ?thesis by (auto simp: glueInv_def)
  next
    case altGlue
    with lt have "list_all (\<lambda>w. syllablesInWord R w \<noteq> 1) imagerySorted"
      by (auto simp: list_all_iff)
    moreover from altGlue h2 have "0 < syllablesInWord R w" by (simp add: list_all_iff)
    ultimately show ?thesis using inv altGlue by (auto simp: glueInv_def)
  next
    case altImagery
    from h3 obtain g where "g \<in> set glueSorted" "syllablesInWord R g = 1" by (auto simp: list_ex_iff)
    with altImagery(3) lt show ?thesis by auto
  qed
qed

lemma growLoop_glueInv:
  assumes "growLoop R imagerySorted glueSorted target 0 [] 0 t = (n, ws, s, t')"
    and "list_all (\<lambda>w. \<not> isGlue w) imagerySorted"
    and "list_all (\<lambda>w. 0 < syllablesInWord R w) glueSorted"
    and "list_ex (\<lambda>w. syllablesInWord R w = 1) glueSorted"
  shows "glueInv R imagerySorted glueSorted ws"
proof (rule growLoop_inv [OF assms(1), where P = "\<lambda>g w s t. glueInv R imagerySorted glueSorted w"])
  show "glueInv R imagerySorted glueSorted []" by (simp add: glueInv_def)
next
  fix guard words syl t brk words' syl' t'
  assume "glueInv R imagerySorted glueSorted words" "syl < target"
    "growStep R imagerySorted glueSorted target words syl t = (brk, words', syl', t')"
  then show "glueInv R imagerySorted glueSorted words'"
    using growStep_glueInv assms(2-4) by blast
qed

lemma naturalAttempts_Some:
  assumes "naturalAttempts R imagerySorted glueSorted target minWords attempt t = (Some ws, n, t')"
  shows "\<exists>t0 g t1. growLoop R imagerySorted glueSorted target 0 [] 0 t0 = (g, ws, target, t1)"
  using assms
proof (induction R imagerySorted glueSorted target minWords attempt t rule: naturalAttempts.induct)
  case (1 R imagerySorted glueSorted target minWords attempt t)
  show ?case
  proof (cases "attempt < 36")
    case False
    with "1.prems" show ?thesis by (simp add: naturalAttempts.simps)
  next
    case True
    obtain guard words syl t1 where gl:
      "growLoop R imagerySorted glueSorted target 0 [] 0 t = (guard, words, syl, t1)"
      by (cases "growLoop R imagerySorted glueSorted target 0 [] 0 t") auto
    show ?thesis
    proof (cases "syl = target \<and> natural minWords words")
      case ok: True
      with True gl "1.prems" have "ws = words"
        by (simp add: naturalAttempts.simps natural_def Let_def)
      with gl ok show ?thesis by blast
    next
      case False
      with True gl "1.prems" have rec:
        "naturalAttempts R imagerySorted glueSorted target minWords (Suc attempt) t1 = (Some ws, n, t')"
        by (auto simp: naturalAttempts.simps natural_def Let_def split: if_splits)
      show ?thesis
      proof (cases "syl = target")
        case eq: True
        with False have nn: "\<not> (minWords \<le> length words \<and> ceil06 minWords \<le> length (filter (\<lambda>w. \<not> isGlue w) words)
          \<and> length words - length (filter (\<lambda>w. \<not> isGlue w) words) \<le> ceilHalf (length words))"
          by (simp add: natural_def)
        from "1.IH"(2) [OF True gl [symmetric] refl refl refl _ refl refl nn rec] eq
        show ?thesis by simp
      next
        case ne: False
        from "1.IH"(1) [OF True gl [symmetric] refl refl refl ne rec] show ?thesis .
      qed
    qed
  qed
qed

text \<open>Where two glue words cannot meet. For a pool without glue words, an oracle that
  counts every glue word as at least one syllable and one of them as exactly one, and a
  target below \<open>2 * ceil(minWords * 0.6) + 2\<close> (the composer calls \<open>packNatural\<close> with
  target 5 and 3 words, and with target 7 and 4 words), no line returned by
  \<open>packNatural\<close> has two adjacent glue words: a line in which the unguarded step put a
  glue word after another has too many syllables or too few imagery words to be
  returned.\<close>

lemma packNatural_no_adjacent_glue:
  assumes "list_all (\<lambda>w. \<not> isGlue w) pool"
    and "list_all (\<lambda>w. 0 < syllablesInWord R w) GLUE_WORDS"
    and "list_ex (\<lambda>w. syllablesInWord R w = 1) GLUE_WORDS"
    and "target < 2 * ceil06 minWords + 2"
    and "fst (packNatural R pool target topic t minWords) = Some ws"
  shows "noGlueGlue ws"
proof (rule ccontr)
  assume adj: "\<not> noGlueGlue ws"
  define imagerySorted where "imagerySorted = sort_key (syllablesInWord R) pool"
  define glueSorted where "glueSorted = sort_key (syllablesInWord R) GLUE_WORDS"
  obtain t' where pn: "packNatural R pool target topic t minWords = (Some ws, t')"
    using assms(5) by (cases "packNatural R pool target topic t minWords") auto
  from packNatural_res [OF pn] have sum: "sylSum R ws = target" and nat: "natural minWords ws"
    by simp_all
  from pn obtain n where "naturalAttempts R imagerySorted glueSorted target minWords 0 t = (Some ws, n, t')"
    by (auto simp: packNatural_def Let_def imagerySorted_def glueSorted_def split: prod.splits)
  from naturalAttempts_Some [OF this] obtain t0 g t1 where
    gl: "growLoop R imagerySorted glueSorted target 0 [] 0 t0 = (g, ws, target, t1)" by blast
  have h1: "list_all (\<lambda>w. \<not> isGlue w) imagerySorted"
    using assms(1) by (simp add: imagerySorted_def list_all_iff)
  have h2: "list_all (\<lambda>w. 0 < syllablesInWord R w) glueSorted"
    using assms(2) by (simp add: glueSorted_def list_all_iff)
  have h3: "list_ex (\<lambda>w. syllablesInWord R w = 1) glueSorted"
    using assms(3) by (simp add: glueSorted_def list_ex_iff)
  from growLoop_glueInv [OF gl h1 h2 h3] adj have
    pos: "\<forall>w \<in> set ws. 0 < syllablesInWord R w"
    and sub: "set ws \<subseteq> set imagerySorted \<union> set glueSorted"
    and none: "\<forall>w \<in> set imagerySorted. syllablesInWord R w \<noteq> 1"
    by (auto simp: glueInv_def list_all_iff)
  have "(isGlue w \<longrightarrow> 1 \<le> syllablesInWord R w) \<and> (\<not> isGlue w \<longrightarrow> 2 \<le> syllablesInWord R w)"
    if w: "w \<in> set ws" for w
  proof (cases "isGlue w")
    case True
    with pos w show ?thesis by (simp add: Suc_leI)
  next
    case False
    with w sub isGlue_GLUE_WORDS [of w] have "w \<in> set imagerySorted" by (auto simp: glueSorted_def)
    with none pos w have "syllablesInWord R w \<noteq> 1" "0 < syllablesInWord R w" by auto
    with False show ?thesis by simp
  qed
  from sylSum_lower_bound [of ws R] this have
    "2 * length (filter (\<lambda>w. \<not> isGlue w) ws) + length (filter isGlue ws) \<le> sylSum R ws" by blast
  moreover from nat have "ceil06 minWords \<le> length (filter (\<lambda>w. \<not> isGlue w) ws)"
    by (simp add: natural_def)
  moreover note glue_pair_count [OF adj] sum assms(4)
  ultimately show False by linarith
qed

section \<open>Concrete evaluations\<close>

lemma demo_topic: "topicOf demoText = Beach"
  by (simp add: topicOf_def demoText_def splitSpaces_def isSpace_def toLowerCase_def lowerChar_def
      scoreTopic_def topicKeys_def topicScore_def keywordScore_def TOPIC_KEYWORDS.simps
      sortByScore_def startsWith_def Let_def)

lemma demo_tokens_clean: "list_all noSpace (rita_tokenize demoRita demoText)"
  by (simp add: demoRita_def demoText_def splitSpaces_def noSpace_def isSpace_def)

lemma demo_beach_mono: "7 \<le> monoCount demoRita (nouns (TOPIC_FILLERS Beach))"
  by code_simp

lemma demo_glue_syllables:
  "list_all (\<lambda>w. 0 < syllablesInWord demoRita w) GLUE_WORDS
   \<and> list_ex (\<lambda>w. syllablesInWord demoRita w = 1) GLUE_WORDS"
  by code_simp

lemma demo_umbrella:
  "fst (packNatural demoRita [''umbrella''] 5 Beach (mulberry32 1) 1) = Some [''umbrella'', ''and'', ''where'']"
  by code_simp

lemma demo_sea_sand:
  "fst (packNatural demoRita [''sea'', ''sand''] 5 Beach (mulberry32 1) 3)
   = Some [''sand'', ''and'', ''sand'', ''at'', ''sea'']"
  by code_simp

lemma demo_isGlue:
  "isGlue ''and'' \<and> isGlue ''where'' \<and> isGlue ''at'' \<and> isGlue ''near'' \<and> \<not> isGlue ''umbrella''
   \<and> \<not> isGlue ''sea'' \<and> \<not> isGlue ''sand''"
  by code_simp

theorem count575_primary_path_witness:
  "list_all noSpace (rita_tokenize demoRita demoText)
   \<and> (\<exists>L1 L2 L3. fst (composeLines demoRita demoText 3) = (Some L1, Some L2, Some L3))
   \<and> count575 demoRita (composeHaikuRiTa demoRita demoText 3) = [5, 7, 5]"
proof -
  have "7 \<le> monoCount demoRita (fst (workingPool demoRita demoText 3))"
    using monoCount_workingPool [of demoRita demoText 3] demo_beach_mono demo_topic by simp
  from composeLines_first [OF this] obtain L1 L2 L3 where
    cl: "fst (composeLines demoRita demoText 3) = (Some L1, Some L2, Some L3)" by blast
  from count575_primary_path [OF demo_tokens_clean cl] demo_tokens_clean cl show ?thesis by blast
qed

theorem packNatural_naturalness_witness:
  "fst (packNatural demoRita [''sea'', ''sand''] 5 Beach (mulberry32 1) 3)
     = Some [''sand'', ''and'', ''sand'', ''at'', ''sea'']
   \<and> (3::nat) \<le> length [''sand'', ''and'', ''sand'', ''at'', ''sea'']
   \<and> \<lceil>real 3 * 0.6\<rceil> \<le> int (length (filter (\<lambda>w. \<not> isGlue w) [''sand'', ''and'', ''sand'', ''at'', ''sea'']))
   \<and> int (length (filter isGlue [''sand'', ''and'', ''sand'', ''at'', ''sea'']))
       \<le> \<lceil>real (length [''sand'', ''and'', ''sand'', ''at'', ''sea'']) * 0.5\<rceil>"
  using packNatural_naturalness [OF demo_sea_sand] demo_sea_sand by blast


text \<open>The step of \<open>packNatural\<close> that finds no pool word fitting picks from the glue
  words without looking at the previous word: from the pool \<open>[umbrella]\<close> with target 5
  and \<open>minWords = 1\<close>, the generator seeded with 1 gives a line whose second and third
  words are both glue words.\<close>

lemma packNatural_unguarded_step:
  "fst (packNatural demoRita [''umbrella''] 5 Beach (mulberry32 1) 1) = Some [''umbrella'', ''and'', ''where'']
   \<and> \<not> noGlueGlue [''umbrella'', ''and'', ''where'']"
  using demo_umbrella demo_isGlue by simp

lemma packNatural_no_adjacent_glue_instance:
  "list_all (\<lambda>w. \<not> isGlue w) [''sea'', ''sand'']
   \<and> list_all (\<lambda>w. 0 < syllablesInWord demoRita w) GLUE_WORDS
   \<and> list_ex (\<lambda>w. syllablesInWord demoRita w = 1) GLUE_WORDS
   \<and> (5::nat) < 2 * ceil06 3 + 2
   \<and> fst (packNatural demoRita [''sea'', ''sand''] 5 Beach (mulberry32 1) 3)
       = Some [''sand'', ''and'', ''sand'', ''at'', ''sea'']
   \<and> noGlueGlue [''sand'', ''and'', ''sand'', ''at'', ''sea'']"
proof -
  have a: "list_all (\<lambda>w. \<not> isGlue w) [''sea'', ''sand'']" using demo_isGlue by simp
  have b: "list_all (\<lambda>w. 0 < syllablesInWord demoRita w) GLUE_WORDS"
    and c: "list_ex (\<lambda>w. syllablesInWord demoRita w = 1) GLUE_WORDS"
    using demo_glue_syllables by simp_all
  have d: "(5::nat) < 2 * ceil06 3 + 2" by (simp add: ceil06_def)
  from packNatural_no_adjacent_glue [OF a b c d demo_sea_sand] a b c d demo_sea_sand
  show ?thesis by blast
qed

text \<open>The composer on the text \<open>the near shore\<close> with the seed 50, stage by stage.\<close>

lemma near_topic: "topicOf nearText = Beach"
  by (simp add: topicOf_def nearText_def splitSpaces_def isSpace_def toLowerCase_def lowerChar_def
      scoreTopic_def topicKeys_def topicScore_def keywordScore_def TOPIC_KEYWORDS.simps
      sortByScore_def startsWith_def Let_def)

lemma near_imagery: "imageryWords demoRita nearText = [''near'', ''shore'']"
  by code_simp

lemma near_kigo: "kigoTokens Beach (mulberry32 50) = ([], 1831565863)"
  by code_simp

lemma near_unique: "uniquePool demoRita nearText Beach = nearPool"
  by code_simp

lemma near_workingPool: "workingPool demoRita nearText 50 = (nearPool, 1831565863)"
  by (simp add: workingPool_def near_topic near_kigo near_unique)

lemma near_line1:
  "packNatural demoRita nearPool 5 Beach 1831565863 3
   = (Some [''shore'', ''a'', ''sea'', ''as'', ''near''], 27473487245)"
  by code_simp

lemma near_line2:
  "packNatural demoRita nearPool 7 Beach 27473487245 4
   = (Some [''surf'', ''shore'', ''dune'', ''tide'', ''shells'', ''tides'', ''sea''], 51283842814)"
  by code_simp

lemma near_line3:
  "packNatural demoRita nearPool 5 Beach 51283842814 3
   = (Some [''tide'', ''by'', ''foam'', ''by'', ''wave''], 67767935131)"
  by code_simp

lemma near_glue: "isGlue ''as'' \<and> isGlue ''near''"
  by code_simp

text \<open>Claim C4 fails in a haiku. The guard of \<open>packNatural\<close> against two glue words in
  a row looks at the previous word only when the next word is drawn from the glue list
  after \<open>preferGlue\<close>; a word drawn from the pool is not looked at, and neither is the
  word of the step that finds nothing fitting. The text \<open>the near shore\<close>, where \<open>near\<close>
  is tagged as an adjective, brings the glue word \<open>near\<close> into the pool. For the seed 50
  the first line of the haiku is the line \<open>packNatural\<close> returns for the working pool, and
  it ends with the two glue words \<open>as near\<close>.\<close>

theorem composeHaiku_adjacent_glue:
  "composeHaikuRiTa demoRita nearText 50
     = join [CHR 0x0A] [''shore a sea as near'', ''surf shore dune tide shells tides sea'',
         ''tide by foam by wave'']
   \<and> fst (packNatural demoRita (fst (workingPool demoRita nearText 50)) 5 (topicOf nearText)
           (snd (workingPool demoRita nearText 50)) 3)
       = Some [''shore'', ''a'', ''sea'', ''as'', ''near'']
   \<and> isGlue ''as'' \<and> isGlue ''near''"
  using near_glue
  by (simp add: composeHaikuRiTa_def composeLines_def packLine_def near_workingPool near_topic
      near_line1 near_line2 near_line3)

text \<open>The composer with a syllable lookup that fails: every count is 0, no line reaches
  its target, and the composer returns the loose fallback.\<close>

lemma failing_count: "syllablesInWord failingRita w = 0"
  by (simp add: syllablesInWord_def failingRita_def)

lemma uncounted_fallback:
  assumes "\<forall>w. syllablesInWord R w = 0"
  shows "composeHaikuRiTa R text seed = fallbackLoose R text"
proof -
  obtain L1 L2 L3 t4 where cl: "composeLines R text seed = ((L1, L2, L3), t4)"
    by (cases "composeLines R text seed") auto
  have "sylSum R ws = 0" for ws using assms by (simp add: sylSum_def)
  with composeLines_res [OF cl] have "L1 = None" by (cases L1) auto
  with cl show ?thesis by (simp add: composeHaikuRiTa_def)
qed

lemma failing_fallback:
  "fallbackLoose failingRita demoText
   = join [CHR 0x0A] [''waves warm sand bright sky'', ''waves warm sand bright sky'',
       ''waves warm sand bright sky'']"
  by code_simp

text \<open>Claim C3 fails on the loose fallback. \<open>fallbackLoose\<close> puts every imagery word with
  \<open>syl + s <= t\<close> into the line and has no test for \<open>s === 0\<close>, the test that
  \<open>packExact\<close> and the first filter of \<open>packNatural\<close> make. With a syllable lookup that
  fails, the haiku the composer returns for the sample text is the loose fallback, and
  each of its three lines is made of five words whose syllable count is 0.\<close>

theorem composeHaiku_selects_uncounted_tokens:
  "composeHaikuRiTa failingRita demoText 3
     = join [CHR 0x0A] [''waves warm sand bright sky'', ''waves warm sand bright sky'',
         ''waves warm sand bright sky'']
   \<and> map (syllablesInWord failingRita) [''waves'', ''warm'', ''sand'', ''bright'', ''sky'']
       = [0, 0, 0, 0, 0]"
  using uncounted_fallback [of failingRita demoText 3] failing_fallback
  by (simp add: failing_count)

theorem scoreTopic_refines_spec_witness:
  "scoreTopic (splitSpaces demoText) = Beach \<and> classifyTopic_spec (splitSpaces demoText) = Beach"
proof -
  have "scoreTopic (splitSpaces demoText) = Beach"
    using demo_topic by (simp add: topicOf_def demoText_def toLowerCase_def lowerChar_def)
  with scoreTopic_refines_spec [of "splitSpaces demoText"] show ?thesis by simp
qed

end
